theory Spec2Isabelle
  imports Main "HOL-Library.Word"
begin

unbundle bit_operations_syntax

section \<open>Attributed relational graphs of vf2lib: the data model\<close>

text \<open>
  The development follows \<^verbatim>\<open>include/argraph.h\<close>, \<^verbatim>\<open>src/argraph.cc\<close> and
  \<^verbatim>\<open>include/vf_state.h\<close>.

  \<^item> \<^verbatim>\<open>node_id\<close> is \<^verbatim>\<open>unsigned short\<close>: a 16-bit word, compared unsigned.
  \<^item> \<^verbatim>\<open>count_type\<close> is \<^verbatim>\<open>short\<close>: a 16-bit word, read with \<open>sint\<close>.
  \<^item> \<^verbatim>\<open>int\<close> variables (\<^verbatim>\<open>n\<close>, loop counters, the registers of the binary search)
    are \<open>int\<close>; they stay far inside the 32-bit range wherever a theorem speaks
    about them.
  \<^item> An attribute (\<^verbatim>\<open>void *\<close>) is an opaque address, a \<open>nat\<close>; \<open>NULL\<close> is 0.
  \<^item> A C array is a list; the list's length is the number of elements that were
    allocated. A read or write outside it is undefined behaviour in C++ and is the
    error \<open>UndefinedBehaviour\<close> here, as is \<^verbatim>\<open>new T[k]\<close> with \<open>k < 0\<close>.
  \<^item> \<^verbatim>\<open>assert\<close> is compiled in (no \<^verbatim>\<open>NDEBUG\<close>): a failed assertion ends the call.
  \<^item> Memory is never exhausted: \<^verbatim>\<open>ptrcheck\<close> always passes.
\<close>

type_synonym node_id = "16 word"
type_synonym count_type = "16 word"
type_synonym byte = "8 word"
type_synonym handle = nat

definition NULL :: handle where
  "NULL = 0"

definition NULL_NODE :: node_id where
  "NULL_NODE = 0xFFFF"

text \<open>
  Modelled from the spec: \<^verbatim>\<open>error.h\<close> is not among the sources. \<^verbatim>\<open>error(msg)\<close> ends
  the operation and reports to the caller (section 7 of the specification). The two
  messages of \<^verbatim>\<open>SetEdgeAttr\<close> are \<open>UnknownEdge\<close> ("non existent edge") and
  \<open>InconsistentGraph\<close> ("inconsistent graph state"); a failed bound assertion is
  \<open>BoundsViolation\<close>, the failed fill assertion \<^verbatim>\<open>assert(l==k)\<close> of the constructor
  is \<open>InconsistentGraph\<close>. \<open>OutOfMemory\<close> and \<open>LoaderOverflow\<close> are named by the
  specification; no path of the model produces them.
\<close>

datatype error =
    OutOfMemory
  | BoundsViolation
  | UnknownEdge
  | InconsistentGraph
  | LoaderOverflow
  | UndefinedBehaviour

subsection \<open>Attribute hooks\<close>

text \<open>
  A destroy function is called for its effect, so it is a name (\<open>None\<close> is the NULL
  function pointer) and a call is an event of the trace. A compatibility function is
  called for its result, so it is a HOL function. Apart from the two adapter classes
  of the library, a hook object may be of any user class: \<open>UserAttrDestroyer\<close> (a name)
  and \<open>UserAttrComparator\<close> (its \<^verbatim>\<open>compatible\<close> method).
\<close>

type_synonym destroy_fn = "nat option"
type_synonym compat_fn = "(handle \<Rightarrow> handle \<Rightarrow> bool) option"

datatype AttrDestroyer =
    FunctionAttrDestroyer destroy_fn
  | UserAttrDestroyer nat

datatype AttrComparator =
    FunctionAttrComparator compat_fn
  | UserAttrComparator "handle \<Rightarrow> handle \<Rightarrow> bool"

datatype event =
    Call nat handle
  | UserDestroy nat handle
  | DeleteDestroyer AttrDestroyer

fun destroy :: "AttrDestroyer \<Rightarrow> handle \<Rightarrow> event list" where
  "destroy (FunctionAttrDestroyer func) a =
     (case func of None \<Rightarrow> [] | Some f \<Rightarrow> [Call f a])"
| "destroy (UserAttrDestroyer d) a = [UserDestroy d a]"

fun compatible :: "AttrComparator \<Rightarrow> handle \<Rightarrow> handle \<Rightarrow> bool" where
  "compatible (FunctionAttrComparator func) attr1 attr2 =
     (case func of None \<Rightarrow> True | Some f \<Rightarrow> f attr1 attr2)"
| "compatible (UserAttrComparator m) attr1 attr2 = m attr1 attr2"

subsection \<open>The graph\<close>

text \<open>
  The fields of \<^verbatim>\<open>ARGraph_impl\<close>. The node count \<^verbatim>\<open>n\<close> is \<open>n_nodes\<close> and the array
  \<^verbatim>\<open>in\<close> is \<open>inn\<close> (\<open>in\<close> is a keyword of the logic). A NULL object pointer is
  \<open>None\<close>.
\<close>

record ARGraph_impl =
  n_nodes :: int
  attr :: "handle list"
  in_count :: "count_type list"
  inn :: "node_id list list"
  in_attr :: "handle list list"
  out_count :: "count_type list"
  out :: "node_id list list"
  out_attr :: "handle list list"
  node_destroyer :: "AttrDestroyer option"
  edge_destroyer :: "AttrDestroyer option"
  node_comparator :: "AttrComparator option"
  edge_comparator :: "AttrComparator option"

text \<open>Reading \<^verbatim>\<open>xs[i]\<close> with an \<^verbatim>\<open>int\<close> index.\<close>

definition rd :: "'a list \<Rightarrow> int \<Rightarrow> error + 'a" where
  "rd xs i = (if 0 \<le> i \<and> i < int (length xs) then Inr (xs ! nat i) else Inl UndefinedBehaviour)"

definition CompatibleNode :: "ARGraph_impl \<Rightarrow> handle \<Rightarrow> handle \<Rightarrow> bool" where
  "CompatibleNode g attr1 attr2 =
     (case node_comparator g of None \<Rightarrow> True | Some c \<Rightarrow> compatible c attr1 attr2)"

definition CompatibleEdge :: "ARGraph_impl \<Rightarrow> handle \<Rightarrow> handle \<Rightarrow> bool" where
  "CompatibleEdge g attr1 attr2 =
     (case edge_comparator g of None \<Rightarrow> True | Some c \<Rightarrow> compatible c attr1 attr2)"

text \<open>
  Sequencing of fallible steps, a checked write \<^verbatim>\<open>xs[i] = v\<close>, a checked write
  \<^verbatim>\<open>xss[i][j] = v\<close> into an array of arrays, \<^verbatim>\<open>new T[k]\<close> (the fresh elements are
  indeterminate in C++; the model fills them with \<open>x\<close>, and every operation below
  writes an element before it reads it), and the loop
  \<^verbatim>\<open>for(i=0; i<n; i++) body\<close> whose bound the body does not change.
\<close>

definition ebind :: "error + 'a \<Rightarrow> ('a \<Rightarrow> error + 'b) \<Rightarrow> error + 'b" where
  "ebind m f = (case m of Inl e \<Rightarrow> Inl e | Inr x \<Rightarrow> f x)"

definition wr :: "'a list \<Rightarrow> int \<Rightarrow> 'a \<Rightarrow> error + 'a list" where
  "wr xs i v = (if 0 \<le> i \<and> i < int (length xs) then Inr (xs[nat i := v]) else Inl UndefinedBehaviour)"

definition wr2 :: "'a list list \<Rightarrow> int \<Rightarrow> int \<Rightarrow> 'a \<Rightarrow> error + 'a list list" where
  "wr2 xss i j v = ebind (rd xss i) (\<lambda>xs. ebind (wr xs j v) (\<lambda>xs'. wr xss i xs'))"

definition rd2 :: "'a list list \<Rightarrow> int \<Rightarrow> int \<Rightarrow> error + 'a" where
  "rd2 xss i j = ebind (rd xss i) (\<lambda>xs. rd xs j)"

definition new_array :: "int \<Rightarrow> 'a \<Rightarrow> error + 'a list" where
  "new_array k x = (if k < 0 then Inl UndefinedBehaviour else Inr (replicate (nat k) x))"

definition upto_n :: "int \<Rightarrow> int list" where
  "upto_n k = map int [0..<nat k]"

fun for_each :: "(int \<Rightarrow> 's \<Rightarrow> error + 's) \<Rightarrow> int list \<Rightarrow> 's \<Rightarrow> error + 's" where
  "for_each body [] s = Inr s"
| "for_each body (i # js) s =
     (case body i s of Inl e \<Rightarrow> Inl e | Inr s' \<Rightarrow> for_each body js s')"

subsection \<open>Edge lookup\<close>

text \<open>
  The loop \<^verbatim>\<open>while (a<b) { c=(unsigned)(a+b)>>1; ... }\<close>, which \<^verbatim>\<open>HasEdge\<close> runs over
  \<^verbatim>\<open>out[n1]\<close> and \<^verbatim>\<open>SetEdgeAttr\<close> over \<^verbatim>\<open>out[n1]\<close> and then over \<^verbatim>\<open>in[n2]\<close>. The
  result is the index \<open>c\<close> of the hit (the loop is left by \<^verbatim>\<open>return\<close> or \<^verbatim>\<open>break\<close>,
  with \<open>a < b\<close>), or \<open>None\<close> when the loop ends with \<open>a \<ge> b\<close>. The registers start
  at \<open>a = 0\<close> and at a \<^verbatim>\<open>short\<close> \<open>b\<close>, so \<open>a \<le> c < b\<close> holds at every turn (lemma
  \<open>mid_between\<close>); the model tests it to be defined on every pair of integers.
\<close>

definition mid :: "int \<Rightarrow> int \<Rightarrow> int" where
  "mid a b = ((a + b) mod 4294967296) div 2"

function bsearch :: "node_id list \<Rightarrow> node_id \<Rightarrow> int \<Rightarrow> int \<Rightarrow> error + int option" where
  "bsearch ids x a b =
     (if a < b then
        (let c = mid a b in
         if a \<le> c \<and> c < b then
           (case rd ids c of
              Inl e \<Rightarrow> Inl e
            | Inr y \<Rightarrow>
                if y < x then bsearch ids x (c + 1) b
                else if y > x then bsearch ids x a c
                else Inr (Some c))
         else Inl UndefinedBehaviour)
      else Inr None)"
  by pat_completeness auto
termination
  by (relation "measure (\<lambda>(ids, x, a, b). nat (b - a))") auto

declare bsearch.simps [simp del]

text \<open>
  \<^verbatim>\<open>HasEdge(n1, n2, pattr)\<close>: \<open>pattr\<close> says whether the pointer is non-null. The
  result is the returned flag and what was stored into \<^verbatim>\<open>*pattr\<close> (\<open>None\<close>: nothing
  was written). \<^verbatim>\<open>out[n1]\<close> is read before the assertions, as in the source.
\<close>

definition HasEdge ::
  "ARGraph_impl \<Rightarrow> node_id \<Rightarrow> node_id \<Rightarrow> bool \<Rightarrow> error + bool \<times> handle option" where
  "HasEdge g n1 n2 pattr =
     ebind (rd (out g) (uint n1)) (\<lambda>ids.
       if \<not> uint n1 < n_nodes g then Inl BoundsViolation
       else if \<not> uint n2 < n_nodes g then Inl BoundsViolation
       else
         ebind (rd (out_count g) (uint n1)) (\<lambda>b.
         ebind (bsearch ids n2 0 (sint b)) (\<lambda>r.
           case r of
             Some c \<Rightarrow>
               if pattr then ebind (rd2 (out_attr g) (uint n1) c) (\<lambda>a. Inr (True, Some a))
               else Inr (True, None)
           | None \<Rightarrow> Inr (False, None))))"

text \<open>
  \<^verbatim>\<open>GetEdgeAttr\<close>: a local \<^verbatim>\<open>void *attr\<close> is passed to \<^verbatim>\<open>HasEdge\<close>; on a hit it has
  been written and is returned, on a miss \<open>NULL\<close> is returned.
\<close>

definition GetEdgeAttr :: "ARGraph_impl \<Rightarrow> node_id \<Rightarrow> node_id \<Rightarrow> error + handle" where
  "GetEdgeAttr g n1 n2 =
     ebind (HasEdge g n1 n2 True) (\<lambda>(hit, written).
       if hit then (case written of Some a \<Rightarrow> Inr a | None \<Rightarrow> Inl UndefinedBehaviour)
       else Inr NULL)"

subsection \<open>Accessors\<close>

definition NodeCount :: "ARGraph_impl \<Rightarrow> int" where
  "NodeCount g = n_nodes g"

definition OutEdgeCount :: "ARGraph_impl \<Rightarrow> node_id \<Rightarrow> error + int" where
  "OutEdgeCount g node =
     (if \<not> uint node < n_nodes g then Inl BoundsViolation
      else ebind (rd (out_count g) (uint node)) (\<lambda>k. Inr (sint k)))"

definition InEdgeCount :: "ARGraph_impl \<Rightarrow> node_id \<Rightarrow> error + int" where
  "InEdgeCount g node =
     (if \<not> uint node < n_nodes g then Inl BoundsViolation
      else ebind (rd (in_count g) (uint node)) (\<lambda>k. Inr (sint k)))"

text \<open>The three-argument \<^verbatim>\<open>GetInEdge\<close> and \<^verbatim>\<open>GetOutEdge\<close>: the neighbour and \<^verbatim>\<open>*pattr\<close>.\<close>

definition GetInEdge :: "ARGraph_impl \<Rightarrow> node_id \<Rightarrow> int \<Rightarrow> error + node_id \<times> handle" where
  "GetInEdge g node i =
     (if \<not> uint node < n_nodes g then Inl BoundsViolation
      else
        ebind (rd (in_count g) (uint node)) (\<lambda>k.
          if \<not> i < sint k then Inl BoundsViolation
          else
            ebind (rd2 (in_attr g) (uint node) i) (\<lambda>a.
            ebind (rd2 (inn g) (uint node) i) (\<lambda>v. Inr (v, a)))))"

definition GetOutEdge :: "ARGraph_impl \<Rightarrow> node_id \<Rightarrow> int \<Rightarrow> error + node_id \<times> handle" where
  "GetOutEdge g node i =
     (if \<not> uint node < n_nodes g then Inl BoundsViolation
      else
        ebind (rd (out_count g) (uint node)) (\<lambda>k.
          if \<not> i < sint k then Inl BoundsViolation
          else
            ebind (rd2 (out_attr g) (uint node) i) (\<lambda>a.
            ebind (rd2 (out g) (uint node) i) (\<lambda>v. Inr (v, a)))))"

subsection \<open>Destroyers and attribute mutation\<close>

definition DestroyNode :: "ARGraph_impl \<Rightarrow> handle \<Rightarrow> event list" where
  "DestroyNode g a = (case node_destroyer g of None \<Rightarrow> [] | Some d \<Rightarrow> destroy d a)"

definition DestroyEdge :: "ARGraph_impl \<Rightarrow> handle \<Rightarrow> event list" where
  "DestroyEdge g a = (case edge_destroyer g of None \<Rightarrow> [] | Some d \<Rightarrow> destroy d a)"

text \<open>\<^verbatim>\<open>delete p\<close> on a destroyer pointer: nothing for NULL.\<close>

definition delete_destroyer :: "AttrDestroyer option \<Rightarrow> event list" where
  "delete_destroyer p = (case p of None \<Rightarrow> [] | Some d \<Rightarrow> [DeleteDestroyer d])"

text \<open>The setters return the graph and the trace of what they did.\<close>

definition SetNodeDestroyer ::
  "ARGraph_impl \<Rightarrow> AttrDestroyer option \<Rightarrow> ARGraph_impl \<times> event list" where
  "SetNodeDestroyer g dest =
     (g\<lparr>node_destroyer := dest\<rparr>, delete_destroyer (node_destroyer g))"

definition SetEdgeDestroyer ::
  "ARGraph_impl \<Rightarrow> AttrDestroyer option \<Rightarrow> ARGraph_impl \<times> event list" where
  "SetEdgeDestroyer g dest =
     (g\<lparr>edge_destroyer := dest\<rparr>, delete_destroyer (edge_destroyer g))"

definition SetNodeDestroy :: "ARGraph_impl \<Rightarrow> destroy_fn \<Rightarrow> ARGraph_impl \<times> event list" where
  "SetNodeDestroy g fn = SetNodeDestroyer g (Some (FunctionAttrDestroyer fn))"

definition SetEdgeDestroy :: "ARGraph_impl \<Rightarrow> destroy_fn \<Rightarrow> ARGraph_impl \<times> event list" where
  "SetEdgeDestroy g fn = SetNodeDestroyer g (Some (FunctionAttrDestroyer fn))"

text \<open>
  The first loop of the destructor, which destroys the edge attributes through the
  out-entries, and the second, which destroys the node attributes. Each returns the
  trace of the destroy calls.
\<close>

definition destroy_edges :: "ARGraph_impl \<Rightarrow> error + event list" where
  "destroy_edges g =
     for_each
       (\<lambda>i evs.
          ebind (rd (out_count g) i) (\<lambda>k.
            for_each
              (\<lambda>j evs'. ebind (rd2 (out_attr g) i j) (\<lambda>a. Inr (evs' @ DestroyEdge g a)))
              (upto_n (sint k)) evs))
       (upto_n (n_nodes g)) []"

definition destroy_nodes :: "ARGraph_impl \<Rightarrow> error + event list" where
  "destroy_nodes g =
     for_each (\<lambda>i evs. ebind (rd (attr g) i) (\<lambda>a. Inr (evs @ DestroyNode g a)))
       (upto_n (n_nodes g)) []"

text \<open>
  \<^verbatim>\<open>SetEdgeAttr\<close> returns the error it ended with (if any), the graph as the call
  leaves it, and the trace. \<open>SetEdgeAttr_in\<close> is its second half, "Replace the
  attribute in the in_attr array".
\<close>

definition SetEdgeAttr_in ::
  "ARGraph_impl \<Rightarrow> node_id \<Rightarrow> node_id \<Rightarrow> handle \<Rightarrow> event list
     \<Rightarrow> error option \<times> ARGraph_impl \<times> event list" where
  "SetEdgeAttr_in g n1 n2 new_attr evs =
     (case rd (inn g) (uint n2) of
        Inl e \<Rightarrow> (Some e, g, evs)
      | Inr ids \<Rightarrow>
          (case rd (in_count g) (uint n2) of
             Inl e \<Rightarrow> (Some e, g, evs)
           | Inr b \<Rightarrow>
               (case bsearch ids n1 0 (sint b) of
                  Inl e \<Rightarrow> (Some e, g, evs)
                | Inr None \<Rightarrow> (Some InconsistentGraph, g, evs)
                | Inr (Some c) \<Rightarrow>
                    (case wr2 (in_attr g) (uint n2) c new_attr of
                       Inl e \<Rightarrow> (Some e, g, evs)
                     | Inr in_attr' \<Rightarrow> (None, g\<lparr>in_attr := in_attr'\<rparr>, evs)))))"

definition SetEdgeAttr ::
  "ARGraph_impl \<Rightarrow> node_id \<Rightarrow> node_id \<Rightarrow> handle \<Rightarrow> bool
     \<Rightarrow> error option \<times> ARGraph_impl \<times> event list" where
  "SetEdgeAttr g n1 n2 new_attr destroyOld =
     (if \<not> uint n1 < n_nodes g then (Some BoundsViolation, g, [])
      else if \<not> uint n2 < n_nodes g then (Some BoundsViolation, g, [])
      else
        (case rd (out g) (uint n1) of
           Inl e \<Rightarrow> (Some e, g, [])
         | Inr ids \<Rightarrow>
             (case rd (out_count g) (uint n1) of
                Inl e \<Rightarrow> (Some e, g, [])
              | Inr b \<Rightarrow>
                  (case bsearch ids n2 0 (sint b) of
                     Inl e \<Rightarrow> (Some e, g, [])
                   | Inr None \<Rightarrow> (Some UnknownEdge, g, [])
                   | Inr (Some c) \<Rightarrow>
                       (case rd2 (out_attr g) (uint n1) c of
                          Inl e \<Rightarrow> (Some e, g, [])
                        | Inr old \<Rightarrow>
                            (case wr2 (out_attr g) (uint n1) c new_attr of
                               Inl e \<Rightarrow> (Some e, g, [])
                             | Inr out_attr' \<Rightarrow>
                                 SetEdgeAttr_in (g\<lparr>out_attr := out_attr'\<rparr>) n1 n2 new_attr
                                   (if destroyOld then DestroyEdge g old else [])))))))"

text \<open>The in-list lookup at \<open>v\<close> for the source \<open>u\<close>: the attribute handle of the in-entry.\<close>

definition in_lookup :: "ARGraph_impl \<Rightarrow> node_id \<Rightarrow> node_id \<Rightarrow> error + handle option" where
  "in_lookup g u v =
     ebind (rd (inn g) (uint v)) (\<lambda>ids.
     ebind (rd (in_count g) (uint v)) (\<lambda>b.
     ebind (bsearch ids u 0 (sint b)) (\<lambda>r.
       case r of
         None \<Rightarrow> Inr None
       | Some c \<Rightarrow> ebind (rd2 (in_attr g) (uint v) c) (\<lambda>a. Inr (Some a)))))"

subsection \<open>The loader and the constructor\<close>

text \<open>
  The four pure virtual methods of \<^verbatim>\<open>ARGLoader\<close>. \<^verbatim>\<open>GetOutEdge(node, i, pattr)\<close>
  returns the neighbour and stores the edge attribute into \<^verbatim>\<open>*pattr\<close>.
\<close>

record ARGLoader =
  loader_NodeCount :: int
  loader_GetNodeAttr :: "node_id \<Rightarrow> handle"
  loader_OutEdgeCount :: "node_id \<Rightarrow> int"
  loader_GetOutEdge :: "node_id \<Rightarrow> int \<Rightarrow> node_id \<times> handle"

text \<open>
  The body of the innermost loop of the first phase:
  \<^verbatim>\<open>n2 = out[i][j] = loader->GetOutEdge(i, j, &out_attr[i][j]); in_count[n2]++;\<close>
\<close>

definition load_edge :: "ARGLoader \<Rightarrow> int \<Rightarrow> int \<Rightarrow> ARGraph_impl \<Rightarrow> error + ARGraph_impl" where
  "load_edge loader i j g =
     (case loader_GetOutEdge loader (word_of_int i) j of
        (n2, a) \<Rightarrow>
          ebind (wr2 (out_attr g) i j a) (\<lambda>out_attr'.
          ebind (wr2 (out g) i j n2) (\<lambda>out'.
          ebind (rd (in_count g) (uint n2)) (\<lambda>cnt.
          ebind (wr (in_count g) (uint n2) (cnt + 1)) (\<lambda>in_count'.
            Inr (g\<lparr>out_attr := out_attr', out := out', in_count := in_count'\<rparr>))))))"

definition load_node :: "ARGLoader \<Rightarrow> int \<Rightarrow> ARGraph_impl \<Rightarrow> error + ARGraph_impl" where
  "load_node loader i g =
     (let kw = (word_of_int (loader_OutEdgeCount loader (word_of_int i)) :: count_type);
          k = sint kw
      in
        ebind (wr (out_count g) i kw) (\<lambda>out_count'.
        ebind (new_array k 0) (\<lambda>ids.
        ebind (wr (out g) i ids) (\<lambda>out'.
        ebind (new_array k NULL) (\<lambda>as.
        ebind (wr (out_attr g) i as) (\<lambda>out_attr'.
          for_each (load_edge loader i) (upto_n k)
            (g\<lparr>out_count := out_count', out := out', out_attr := out_attr'\<rparr>)))))))"

text \<open>
  The second phase. The state of the loop over \<open>j\<close> is the graph and the fill
  index \<open>l\<close>.
\<close>

definition fill_in_edge ::
  "int \<Rightarrow> int \<Rightarrow> ARGraph_impl \<times> int \<Rightarrow> error + ARGraph_impl \<times> int" where
  "fill_in_edge i j s =
     (case s of
        (g, l) \<Rightarrow>
          ebind (HasEdge g (word_of_int j) (word_of_int i) False) (\<lambda>(hit, written).
            if hit then
              ebind (wr2 (inn g) i l (word_of_int j)) (\<lambda>inn'.
              ebind (GetEdgeAttr g (word_of_int j) (word_of_int i)) (\<lambda>a.
              ebind (wr2 (in_attr g) i l a) (\<lambda>in_attr'.
                Inr (g\<lparr>inn := inn', in_attr := in_attr'\<rparr>, l + 1))))
            else Inr (g, l)))"

definition fill_in_node :: "int \<Rightarrow> ARGraph_impl \<Rightarrow> error + ARGraph_impl" where
  "fill_in_node i g =
     ebind (rd (in_count g) i) (\<lambda>kw.
       let k = sint kw in
         ebind (new_array k 0) (\<lambda>ids.
         ebind (wr (inn g) i ids) (\<lambda>inn'.
         ebind (new_array k NULL) (\<lambda>as.
         ebind (wr (in_attr g) i as) (\<lambda>in_attr'.
         ebind (for_each (fill_in_edge i) (upto_n (n_nodes g))
                  (g\<lparr>inn := inn', in_attr := in_attr'\<rparr>, 0)) (\<lambda>(g', l).
           if l = k then Inr g' else Inl InconsistentGraph))))))"

text \<open>
  The graph after the allocations and \<^verbatim>\<open>clear\<close> calls, before the first phase; the
  first phase \<open>load_out\<close>; and the constructor.
\<close>

definition alloc_graph :: "ARGLoader \<Rightarrow> error + ARGraph_impl" where
  "alloc_graph loader =
     (let n = loader_NodeCount loader in
        ebind (new_array n NULL) (\<lambda>attr0.
          Inr \<lparr>n_nodes = n,
               attr = map (\<lambda>i. loader_GetNodeAttr loader (word_of_int i)) (upto_n n),
               in_count = replicate (nat n) 0,
               inn = replicate (nat n) [],
               in_attr = replicate (nat n) [],
               out_count = replicate (nat n) 0,
               out = replicate (nat n) [],
               out_attr = replicate (nat n) [],
               node_destroyer = None,
               edge_destroyer = None,
               node_comparator = None,
               edge_comparator = None\<rparr>))"

definition load_out :: "ARGLoader \<Rightarrow> error + ARGraph_impl" where
  "load_out loader =
     ebind (alloc_graph loader) (\<lambda>g.
       for_each (load_node loader) (upto_n (n_nodes g)) g)"

definition ARGraph_impl_ctor :: "ARGLoader \<Rightarrow> error + ARGraph_impl" where
  "ARGraph_impl_ctor loader =
     ebind (load_out loader) (\<lambda>g.
       for_each fill_in_node (upto_n (n_nodes g)) g)"

subsection \<open>The matching state\<close>

text \<open>
  The fields of \<^verbatim>\<open>VFState\<close> and its two inline terminal tests. The graphs are held by
  pointer; the state keeps them by value here, which the tests never look at.
\<close>

definition ST_CORE :: byte where "ST_CORE = 0x01"
definition ST_TERM_IN :: byte where "ST_TERM_IN = 0x02"
definition ST_TERM_OUT :: byte where "ST_TERM_OUT = 0x04"

record VFState =
  core_len :: int
  t1in_len :: int
  t1out_len :: int
  t2in_len :: int
  t2out_len :: int
  core_1 :: "node_id list"
  core_2 :: "node_id list"
  node_flags_1 :: "byte list"
  node_flags_2 :: "byte list"
  g1 :: ARGraph_impl
  g2 :: ARGraph_impl
  n1 :: int
  n2 :: int

definition IsGoal :: "VFState \<Rightarrow> bool" where
  "IsGoal s = (core_len s = n1 s \<and> core_len s = n2 s)"

definition IsDead :: "VFState \<Rightarrow> bool" where
  "IsDead s = (n1 s \<noteq> n2 s \<or> t1out_len s \<noteq> t2out_len s \<or> t1in_len s \<noteq> t2in_len s)"

text \<open>
  The invariants of the specification that the disjointness of the two tests rests
  on. The flag arrays have one byte per node of their side. \<open>in_core\<close> counts the
  nodes carrying \<open>ST_CORE\<close>, \<open>popcount flag\<close> the non-core nodes carrying \<open>flag\<close>.
\<close>

definition in_core :: "byte list \<Rightarrow> int" where
  "in_core flags = int (length (filter (\<lambda>f. f AND ST_CORE \<noteq> 0) flags))"

definition popcount :: "byte \<Rightarrow> byte list \<Rightarrow> int" where
  "popcount flag flags =
     int (length (filter (\<lambda>f. f AND ST_CORE = 0 \<and> f AND flag \<noteq> 0) flags))"

definition vf_invariants :: "VFState \<Rightarrow> bool" where
  "vf_invariants s =
     (int (length (node_flags_1 s)) = n1 s \<and>
      int (length (node_flags_2 s)) = n2 s \<and>
      core_len s = in_core (node_flags_1 s) \<and>
      core_len s = in_core (node_flags_2 s) \<and>
      t1in_len s = popcount ST_TERM_IN (node_flags_1 s) \<and>
      t1out_len s = popcount ST_TERM_OUT (node_flags_1 s) \<and>
      t2in_len s = popcount ST_TERM_IN (node_flags_2 s) \<and>
      t2out_len s = popcount ST_TERM_OUT (node_flags_2 s))"

subsection \<open>Properties of a graph\<close>

text \<open>
  \<open>out_ok g u\<close>: the three out-arrays of node \<open>u\<close> exist and hold \<^verbatim>\<open>out_count[u]\<close>
  elements each, as the constructor allocates them; \<open>in_ok\<close> likewise. \<open>edge_entry g u v\<close>
  is the attribute stored at the out-entry of \<open>u\<close> for \<open>v\<close> (\<open>None\<close>: there is no such
  entry), \<open>in_entry g v u\<close> the attribute stored at the in-entry of \<open>v\<close> for \<open>u\<close>.
\<close>

definition out_ok :: "ARGraph_impl \<Rightarrow> node_id \<Rightarrow> bool" where
  "out_ok g u =
     (unat u < length (out g) \<and> unat u < length (out_count g) \<and> unat u < length (out_attr g) \<and>
      sint (out_count g ! unat u) = int (length (out g ! unat u)) \<and>
      length (out_attr g ! unat u) = length (out g ! unat u))"

definition in_ok :: "ARGraph_impl \<Rightarrow> node_id \<Rightarrow> bool" where
  "in_ok g v =
     (unat v < length (inn g) \<and> unat v < length (in_count g) \<and> unat v < length (in_attr g) \<and>
      sint (in_count g ! unat v) = int (length (inn g ! unat v)) \<and>
      length (in_attr g ! unat v) = length (inn g ! unat v))"

definition edge_entry :: "ARGraph_impl \<Rightarrow> node_id \<Rightarrow> node_id \<Rightarrow> handle option" where
  "edge_entry g u v = map_of (zip (out g ! unat u) (out_attr g ! unat u)) v"

definition in_entry :: "ARGraph_impl \<Rightarrow> node_id \<Rightarrow> node_id \<Rightarrow> handle option" where
  "in_entry g v u = map_of (zip (inn g ! unat v) (in_attr g ! unat v)) u"

subsection \<open>What the constructor reads from a loader\<close>

text \<open>
  \<open>edge_count L i\<close> is the out-degree of node \<open>i\<close> as the constructor stores it (the
  loader's \<^verbatim>\<open>int\<close> converted to \<^verbatim>\<open>short\<close>), \<open>reported L i\<close> the out-edges it then asks
  for, in the loader's order. \<open>padded ys k x\<close> is an array of \<open>k\<close> elements whose first
  \<open>length ys\<close> elements have been written; \<open>bump\<close> is \<^verbatim>\<open>in_count[v]++\<close>.
  \<open>loadable L\<close> says that the first phase stays inside its arrays, and
  \<open>loaded_graph L\<close> is the graph it then leaves.
\<close>

definition padded :: "'a list \<Rightarrow> nat \<Rightarrow> 'a \<Rightarrow> 'a list" where
  "padded ys k x = ys @ replicate (k - length ys) x"

definition bump :: "count_type list \<Rightarrow> node_id \<Rightarrow> count_type list" where
  "bump cs v = cs[unat v := cs ! unat v + 1]"

definition edge_count :: "ARGLoader \<Rightarrow> nat \<Rightarrow> count_type" where
  "edge_count L i = word_of_int (loader_OutEdgeCount L (word_of_nat i))"

definition reported :: "ARGLoader \<Rightarrow> nat \<Rightarrow> (node_id \<times> handle) list" where
  "reported L i =
     map (\<lambda>j. loader_GetOutEdge L (word_of_nat i) (int j)) [0..<nat (sint (edge_count L i))]"

definition loadable :: "ARGLoader \<Rightarrow> bool" where
  "loadable L =
     (0 \<le> loader_NodeCount L \<and>
      list_all
        (\<lambda>i. 0 \<le> sint (edge_count L i) \<and>
             list_all (\<lambda>e. unat (fst e) < nat (loader_NodeCount L)) (reported L i))
        [0..<nat (loader_NodeCount L)])"

definition loaded_graph :: "ARGLoader \<Rightarrow> ARGraph_impl" where
  "loaded_graph L =
     (let n = nat (loader_NodeCount L) in
        \<lparr>n_nodes = loader_NodeCount L,
         attr = map (\<lambda>i. loader_GetNodeAttr L (word_of_nat i)) [0..<n],
         in_count = foldl bump (replicate n 0) (concat (map (\<lambda>i. map fst (reported L i)) [0..<n])),
         inn = replicate n [],
         in_attr = replicate n [],
         out_count = map (edge_count L) [0..<n],
         out = map (\<lambda>i. map fst (reported L i)) [0..<n],
         out_attr = map (\<lambda>i. map snd (reported L i)) [0..<n],
         node_destroyer = None,
         edge_destroyer = None,
         node_comparator = None,
         edge_comparator = None\<rparr>)"

text \<open>
  The second phase. \<open>find_edge g u v\<close> is where the binary search over the out-array
  of \<open>u\<close> finds \<open>v\<close>; \<open>sources g v\<close> are the nodes \<open>u\<close>, ascending, for which
  \<^verbatim>\<open>HasEdge(u, v)\<close> holds; \<open>in_list\<close> and \<open>in_attrs\<close> are the in-arrays the phase writes
  for \<open>v\<close>. \<open>fillable g\<close> says that every fill count meets \<^verbatim>\<open>in_count\<close>
  (\<^verbatim>\<open>assert(l==k)\<close>), and \<open>filled_graph g\<close> is the graph the phase then leaves.
\<close>

definition find_edge :: "ARGraph_impl \<Rightarrow> nat \<Rightarrow> nat \<Rightarrow> int option" where
  "find_edge g u v =
     (case bsearch (out g ! u) (word_of_nat v) 0 (int (length (out g ! u))) of
        Inr r \<Rightarrow> r
      | Inl e \<Rightarrow> None)"

definition sources :: "ARGraph_impl \<Rightarrow> nat \<Rightarrow> nat list" where
  "sources g v = filter (\<lambda>u. find_edge g u v \<noteq> None) [0..<nat (n_nodes g)]"

definition found_attr :: "ARGraph_impl \<Rightarrow> nat \<Rightarrow> nat \<Rightarrow> handle" where
  "found_attr g v u =
     (case find_edge g u v of Some c \<Rightarrow> out_attr g ! u ! nat c | None \<Rightarrow> NULL)"

definition in_list :: "ARGraph_impl \<Rightarrow> nat \<Rightarrow> node_id list" where
  "in_list g v = map word_of_nat (sources g v)"

definition in_attrs :: "ARGraph_impl \<Rightarrow> nat \<Rightarrow> handle list" where
  "in_attrs g v = map (found_attr g v) (sources g v)"

definition fillable :: "ARGraph_impl \<Rightarrow> bool" where
  "fillable g =
     list_all (\<lambda>v. sint (in_count g ! v) = int (length (sources g v))) [0..<nat (n_nodes g)]"

definition filled_graph :: "ARGraph_impl \<Rightarrow> ARGraph_impl" where
  "filled_graph g =
     g\<lparr>inn := map (in_list g) [0..<nat (n_nodes g)],
       in_attr := map (in_attrs g) [0..<nat (n_nodes g)]\<rparr>"

definition same_out :: "ARGraph_impl \<Rightarrow> ARGraph_impl \<Rightarrow> bool" where
  "same_out g g' =
     (n_nodes g = n_nodes g' \<and> out g = out g' \<and> out_count g = out_count g' \<and>
      out_attr g = out_attr g')"

subsection \<open>Loaders in ascending order, and the invariants of a graph\<close>

text \<open>
  \<open>in_total L v\<close> is the number of out-edges into \<open>v\<close> that the constructor reads
  from \<open>L\<close> (counted by \<^verbatim>\<open>in_count[v]++\<close>). \<open>in_range L\<close>: the node count is at most
  65536, so that every node has its own \<^verbatim>\<open>node_id\<close>, and no \<^verbatim>\<open>in_count\<close> leaves the
  positive range of \<^verbatim>\<open>short\<close>. \<open>ascending_reports L\<close>: every node's out-edges are read
  in strictly ascending order of neighbour id. \<open>ascending_loader L\<close> adds that the
  loader's own counts fit a \<^verbatim>\<open>short\<close> and that every neighbour is a node.
\<close>

definition in_total :: "ARGLoader \<Rightarrow> nat \<Rightarrow> nat" where
  "in_total L v =
     length (filter (\<lambda>w. unat w = v)
       (concat (map (\<lambda>i. map fst (reported L i)) [0..<nat (loader_NodeCount L)])))"

definition in_range :: "ARGLoader \<Rightarrow> bool" where
  "in_range L =
     (loader_NodeCount L \<le> 65536 \<and>
      list_all (\<lambda>v. in_total L v \<le> 32767) [0..<nat (loader_NodeCount L)])"

definition ascending_reports :: "ARGLoader \<Rightarrow> bool" where
  "ascending_reports L =
     list_all (\<lambda>i. sorted_wrt (<) (map fst (reported L i))) [0..<nat (loader_NodeCount L)]"

definition ascending_loader :: "ARGLoader \<Rightarrow> bool" where
  "ascending_loader L =
     (0 \<le> loader_NodeCount L \<and> in_range L \<and> ascending_reports L \<and>
      list_all
        (\<lambda>i. 0 \<le> loader_OutEdgeCount L (word_of_nat i) \<and>
             loader_OutEdgeCount L (word_of_nat i) \<le> 32767 \<and>
             list_all (\<lambda>e. unat (fst e) < nat (loader_NodeCount L)) (reported L i))
        [0..<nat (loader_NodeCount L)])"

text \<open>
  The invariants of section 3 of the specification, for the nodes \<open>u < n\<close>: the
  arrays of \<open>u\<close> are allocated with their counts, the out-array and the in-array are
  strictly ascending and hold node ids below \<open>n\<close>, and (aliasing) the attribute of the
  out-entry of \<open>u\<close> for \<open>v\<close> is the attribute of the in-entry of \<open>v\<close> for \<open>u\<close>, one
  entry existing exactly when the other does.
\<close>

definition node_inv :: "ARGraph_impl \<Rightarrow> nat \<Rightarrow> bool" where
  "node_inv g u =
     (out_ok g (word_of_nat u) \<and> in_ok g (word_of_nat u) \<and>
      sorted_wrt (<) (out g ! u) \<and> sorted_wrt (<) (inn g ! u) \<and>
      list_all (\<lambda>v. unat v < nat (n_nodes g)) (out g ! u) \<and>
      list_all (\<lambda>v. unat v < nat (n_nodes g)) (inn g ! u) \<and>
      list_all (\<lambda>v. edge_entry g (word_of_nat u) (word_of_nat v)
                     = in_entry g (word_of_nat v) (word_of_nat u)) [0..<nat (n_nodes g)])"

definition arg_inv :: "ARGraph_impl \<Rightarrow> bool" where
  "arg_inv g =
     (0 \<le> n_nodes g \<and> n_nodes g \<le> 65536 \<and> list_all (node_inv g) [0..<nat (n_nodes g)])"

text \<open>A loader of \<open>n\<close> isolated nodes, and the graph of \<open>n\<close> isolated nodes.\<close>

definition isolated_loader :: "int \<Rightarrow> ARGLoader" where
  "isolated_loader n =
     \<lparr>loader_NodeCount = n,
      loader_GetNodeAttr = (\<lambda>u. NULL),
      loader_OutEdgeCount = (\<lambda>u. 0),
      loader_GetOutEdge = (\<lambda>u j. (0, NULL))\<rparr>"

definition isolated_graph :: "int \<Rightarrow> ARGraph_impl" where
  "isolated_graph n =
     \<lparr>n_nodes = n, attr = replicate (nat n) NULL,
      in_count = replicate (nat n) 0, inn = replicate (nat n) [], in_attr = replicate (nat n) [],
      out_count = replicate (nat n) 0, out = replicate (nat n) [], out_attr = replicate (nat n) [],
      node_destroyer = None, edge_destroyer = None,
      node_comparator = None, edge_comparator = None\<rparr>"

subsection \<open>Concrete loaders and graphs\<close>

text \<open>
  A loader that reads a table: node \<open>u\<close> reports the pairs of \<open>adj ! u\<close>, in the order
  of the list; node attributes are \<open>100 + u\<close>. It answers 0 outside the table.
\<close>

definition table_loader :: "(node_id \<times> handle) list list \<Rightarrow> ARGLoader" where
  "table_loader adj =
     \<lparr>loader_NodeCount = int (length adj),
      loader_GetNodeAttr = (\<lambda>u. 100 + unat u),
      loader_OutEdgeCount = (\<lambda>u. if unat u < length adj then int (length (adj ! unat u)) else 0),
      loader_GetOutEdge =
        (\<lambda>u j. if unat u < length adj \<and> 0 \<le> j \<and> nat j < length (adj ! unat u)
                then adj ! unat u ! nat j else (0, NULL))\<rparr>"

text \<open>A triangle 0 \<rightarrow> 1 \<rightarrow> 2 \<rightarrow> 0 with the chord 0 \<rightarrow> 2, out-edges reported ascending.\<close>

definition sorted_loader :: ARGLoader where
  "sorted_loader = table_loader [[(1, 11), (2, 12)], [(2, 22)], [(0, 30)]]"

text \<open>The same graph, the out-edges of node 0 reported as 2, then 1.\<close>

definition unsorted_loader :: ARGLoader where
  "unsorted_loader = table_loader [[(2, 12), (1, 11)], [(2, 22)], [(0, 30)]]"

text \<open>
  A loader of four nodes that reports duplicates. Node 0 reports the out-edges 2
  (attribute 12), then 1 (attribute 11); nodes 1, 2 and 3 report node 2 again and again
  (attribute 20), \<open>k1\<close>, \<open>k2\<close> and \<open>k3\<close> times. \<open>wrap_loader\<close> reports 65539 edges into
  node 2, three more than the 65536 values of a \<^verbatim>\<open>short\<close>.
\<close>

definition dup_loader :: "int \<Rightarrow> int \<Rightarrow> int \<Rightarrow> ARGLoader" where
  "dup_loader k1 k2 k3 =
     \<lparr>loader_NodeCount = 4,
      loader_GetNodeAttr = (\<lambda>u. NULL),
      loader_OutEdgeCount = (\<lambda>u. if u = 0 then 2 else if u = 1 then k1 else if u = 2 then k2 else k3),
      loader_GetOutEdge = (\<lambda>u j. if u = 0 then (if j = 0 then (2, 12) else (1, 11)) else (2, 20))\<rparr>"

definition wrap_loader :: ARGLoader where
  "wrap_loader = dup_loader 32767 32767 4"

text \<open>The graph that the constructor builds from \<open>sorted_loader\<close>.\<close>

definition tri_graph :: ARGraph_impl where
  "tri_graph =
     \<lparr>n_nodes = 3, attr = [100, 101, 102],
      in_count = [1, 1, 2], inn = [[2], [0], [0, 1]], in_attr = [[30], [11], [12, 22]],
      out_count = [2, 1, 1], out = [[1, 2], [2], [0]], out_attr = [[11, 12], [22], [30]],
      node_destroyer = None, edge_destroyer = None,
      node_comparator = None, edge_comparator = None\<rparr>"


text \<open>
  A complete matching of two graphs of two nodes (every node carries \<open>ST_CORE\<close>), and
  a state of the same graphs with one pair matched, where node 1 of the first side is
  in the in-terminal set and node 0 of the second side is in the out-terminal set.
\<close>

definition goal_state :: VFState where
  "goal_state =
     \<lparr>core_len = 2, t1in_len = 0, t1out_len = 0, t2in_len = 0, t2out_len = 0,
      core_1 = [1, 0], core_2 = [1, 0],
      node_flags_1 = [0x03, 0x05], node_flags_2 = [0x01, 0x07],
      g1 = tri_graph, g2 = tri_graph, n1 = 2, n2 = 2\<rparr>"

definition dead_state :: VFState where
  "dead_state =
     \<lparr>core_len = 1, t1in_len = 1, t1out_len = 0, t2in_len = 0, t2out_len = 1,
      core_1 = [1, NULL_NODE], core_2 = [NULL_NODE, 0],
      node_flags_1 = [0x01, 0x02], node_flags_2 = [0x04, 0x01],
      g1 = tri_graph, g2 = tri_graph, n1 = 2, n2 = 2\<rparr>"

section \<open>Theorems\<close>

subsection \<open>Terminal tests of the matching state\<close>

lemma filter_all_length:
  "length (filter P xs) = length xs \<Longrightarrow> filter (\<lambda>x. \<not> P x \<and> Q x) xs = []"
proof -
  assume "length (filter P xs) = length xs"
  then have "\<forall>x \<in> set xs. P x"
    by (metis filter_id_conv length_filter_less less_irrefl not_less)
  then show ?thesis
    by (induction xs) auto
qed

lemma popcount_all_core:
  "in_core flags = int (length flags) \<Longrightarrow> popcount flag flags = 0"
  using filter_all_length [of "\<lambda>f. f AND ST_CORE \<noteq> 0" flags "\<lambda>f. f AND flag \<noteq> 0"]
  by (simp add: in_core_def popcount_def)

text \<open>
  C8. Goal and Dead are disjoint: a state that satisfies the invariants (the core
  length is the number of \<open>ST_CORE\<close> nodes of each side, the four terminal lengths are
  the population counts of their bit over the non-core nodes of their side) never
  has \<open>IsGoal\<close> and \<open>IsDead\<close> both true.
\<close>

theorem goal_disjoint_from_dead:
  assumes "vf_invariants s"
  shows "\<not> (IsGoal s \<and> IsDead s)"
proof
  assume gd: "IsGoal s \<and> IsDead s"
  then have c1: "core_len s = n1 s" and c2: "core_len s = n2 s"
    by (simp_all add: IsGoal_def)
  from assms have i1: "in_core (node_flags_1 s) = int (length (node_flags_1 s))"
    and i2: "in_core (node_flags_2 s) = int (length (node_flags_2 s))"
    using c1 c2 by (simp_all add: vf_invariants_def)
  have "t1in_len s = 0" "t1out_len s = 0" "t2in_len s = 0" "t2out_len s = 0"
    using assms popcount_all_core [OF i1] popcount_all_core [OF i2]
    by (simp_all add: vf_invariants_def)
  with gd c1 c2 show False
    by (simp add: IsDead_def)
qed

theorem goal_disjoint_from_dead_witness:
  "vf_invariants goal_state \<and> IsGoal goal_state \<and> \<not> IsDead goal_state
   \<and> vf_invariants dead_state \<and> IsDead dead_state \<and> \<not> IsGoal dead_state"
proof -
  have g: "vf_invariants goal_state"
    by (simp add: vf_invariants_def goal_state_def in_core_def popcount_def
        ST_CORE_def ST_TERM_IN_def ST_TERM_OUT_def)
  have d: "vf_invariants dead_state"
    by (simp add: vf_invariants_def dead_state_def in_core_def popcount_def
        ST_CORE_def ST_TERM_IN_def ST_TERM_OUT_def)
  have "IsGoal goal_state" by (simp add: IsGoal_def goal_state_def)
  moreover have "IsDead dead_state" by (simp add: IsDead_def dead_state_def)
  ultimately show ?thesis
    using g d goal_disjoint_from_dead [OF g] goal_disjoint_from_dead [OF d] by simp
qed

subsection \<open>The binary search\<close>

lemma mid_between:
  assumes "0 \<le> a" "a < b" "b < 2147483648"
  shows "mid a b = (a + b) div 2" "a \<le> mid a b" "mid a b < b"
proof -
  have "0 \<le> a + b" "a + b < 4294967296" using assms by auto
  then have "(a + b) mod 4294967296 = a + b" by simp
  then show "mid a b = (a + b) div 2" by (simp add: mid_def)
  then show "a \<le> mid a b" "mid a b < b" using assms by auto
qed

lemma rd_Inr: "0 \<le> i \<Longrightarrow> i < int (length xs) \<Longrightarrow> rd xs i = Inr (xs ! nat i)"
  by (simp add: rd_def)

lemma rd_InrD: "rd xs i = Inr y \<Longrightarrow> 0 \<le> i \<and> i < int (length xs) \<and> y = xs ! nat i"
  by (auto simp: rd_def split: if_splits)

lemma bsearch_hit:
  "bsearch ids x a b = Inr (Some c) \<Longrightarrow>
     a \<le> c \<and> c < b \<and> 0 \<le> c \<and> c < int (length ids) \<and> ids ! nat c = x"
proof (induction ids x a b rule: bsearch.induct)
  case (1 ids x a b)
  from "1.prems" have ab: "a < b"
    by (subst (asm) bsearch.simps) (simp split: if_splits)
  from "1.prems" ab have m: "a \<le> mid a b" "mid a b < b"
    by (subst (asm) bsearch.simps, simp add: Let_def split: if_splits)+
  from "1.prems" ab m obtain y where y: "rd ids (mid a b) = Inr y"
    by (subst (asm) bsearch.simps) (auto simp: Let_def split: sum.splits)
  note r = rd_InrD [OF y]
  consider "y < x" | "x < y" | "y = x" by fastforce
  then show ?case
  proof cases
    case 1
    with "1.prems" ab m y have "bsearch ids x (mid a b + 1) b = Inr (Some c)"
      by (subst (asm) bsearch.simps) (simp add: Let_def)
    from "1.IH"(1) [OF ab refl _ y 1 this] m show ?thesis by auto
  next
    case 2
    then have nl: "\<not> y < x" by simp
    with "1.prems" ab m y 2 have "bsearch ids x a (mid a b) = Inr (Some c)"
      by (subst (asm) bsearch.simps) (simp add: Let_def)
    from "1.IH"(2) [OF ab refl _ y nl 2 this] m show ?thesis by auto
  next
    case 3
    with "1.prems" ab m y have "c = mid a b"
      by (subst (asm) bsearch.simps) (simp add: Let_def)
    with r m 3 show ?thesis by simp
  qed
qed

lemma bsearch_step:
  assumes "0 \<le> a" "a < b" "b \<le> int (length ids)" "length ids < 2147483648"
  shows "bsearch ids x a b =
     (if ids ! nat (mid a b) < x then bsearch ids x (mid a b + 1) b
      else if ids ! nat (mid a b) > x then bsearch ids x a (mid a b)
      else Inr (Some (mid a b)))"
proof -
  have b: "b < 2147483648" using assms by simp
  note m = mid_between [OF assms(1,2) b]
  have "rd ids (mid a b) = Inr (ids ! nat (mid a b))"
    using m assms by (intro rd_Inr) auto
  then show ?thesis
    using assms(2) m(2,3) by (subst bsearch.simps) (simp add: Let_def)
qed

lemma bsearch_find:
  "sorted_wrt (<) ids \<Longrightarrow> length ids < 2147483648 \<Longrightarrow> 0 \<le> a \<Longrightarrow> b \<le> int (length ids)
    \<Longrightarrow> a \<le> i \<Longrightarrow> i < b \<Longrightarrow> ids ! nat i = x
    \<Longrightarrow> bsearch ids x a b = Inr (Some i)"
proof (induction ids x a b rule: bsearch.induct)
  case (1 ids x a b)
  have ab: "a < b" using "1.prems" by simp
  have b31: "b < 2147483648" using "1.prems" by simp
  note m = mid_between [OF "1.prems"(3) ab b31]
  note step = bsearch_step [OF "1.prems"(3) ab "1.prems"(4) "1.prems"(2), of x]
  have rdm: "rd ids (mid a b) = Inr (ids ! nat (mid a b))"
    using m "1.prems" by (intro rd_Inr) auto
  have mono: "\<And>p q. p < q \<Longrightarrow> q < length ids \<Longrightarrow> ids ! p < ids ! q"
    using "1.prems"(1) by (simp add: sorted_wrt_iff_nth_less)
  consider "i < mid a b" | "mid a b < i" | "i = mid a b" by fastforce
  then show ?case
  proof cases
    case 1
    have "ids ! nat i < ids ! nat (mid a b)"
      using 1 "1.prems" m by (intro mono) auto
    then have gt: "x < ids ! nat (mid a b)" and nl: "\<not> ids ! nat (mid a b) < x"
      using "1.prems"(7) by auto
    have "bsearch ids x a (mid a b) = Inr (Some i)"
      using "1.IH"(2) [OF ab refl _ rdm nl gt "1.prems"(1,2,3) _ "1.prems"(5) 1 "1.prems"(7)]
        m "1.prems" by simp
    then show ?thesis using step gt nl by simp
  next
    case 2
    have lt: "ids ! nat (mid a b) < x"
      using 2 "1.prems" m mono [of "nat (mid a b)" "nat i"] by auto
    have "bsearch ids x (mid a b + 1) b = Inr (Some i)"
      using "1.IH"(1) [OF ab refl _ rdm lt "1.prems"(1,2) _ "1.prems"(4) _ "1.prems"(6,7)]
        m 2 "1.prems" by simp
    then show ?thesis using step lt by simp
  next
    case 3
    then show ?thesis using step "1.prems"(7) by simp
  qed
qed

lemma bsearch_total:
  "length ids < 2147483648 \<Longrightarrow> 0 \<le> a \<Longrightarrow> b \<le> int (length ids)
    \<Longrightarrow> \<exists>r. bsearch ids x a b = Inr r"
proof (induction ids x a b rule: bsearch.induct)
  case (1 ids x a b)
  show ?case
  proof (cases "a < b")
    case False
    then show ?thesis by (subst bsearch.simps) simp
  next
    case ab: True
    have b31: "b < 2147483648" using "1.prems" by simp
    note m = mid_between [OF "1.prems"(2) ab b31]
    note step = bsearch_step [OF "1.prems"(2) ab "1.prems"(3) "1.prems"(1), of x]
    have rdm: "rd ids (mid a b) = Inr (ids ! nat (mid a b))"
      using m "1.prems" by (intro rd_Inr) auto
    consider "ids ! nat (mid a b) < x" | "x < ids ! nat (mid a b)" | "ids ! nat (mid a b) = x"
      by fastforce
    then show ?thesis
    proof cases
      case 1
      have "0 \<le> mid a b + 1" "a \<le> mid a b \<and> mid a b < b" using m "1.prems" by auto
      from "1.IH"(1) [OF ab refl this(2) rdm 1 "1.prems"(1) this(1) "1.prems"(3)]
      show ?thesis using step 1 by simp
    next
      case 2
      then have nl: "\<not> ids ! nat (mid a b) < x" by simp
      have "a \<le> mid a b \<and> mid a b < b" "mid a b \<le> int (length ids)" using m "1.prems" by auto
      from "1.IH"(2) [OF ab refl this(1) rdm nl 2 "1.prems"(1,2) this(2)]
      show ?thesis using step 2 nl by simp
    next
      case 3
      then show ?thesis using step by simp
    qed
  qed
qed

lemma bsearch_miss:
  assumes "sorted_wrt (<) ids" "length ids < 2147483648" "x \<notin> set ids"
  shows "bsearch ids x 0 (int (length ids)) = Inr None"
proof -
  obtain r where r: "bsearch ids x 0 (int (length ids)) = Inr r"
    using bsearch_total [OF assms(2), of 0 "int (length ids)" x] by auto
  have "r = None"
  proof (cases r)
    case (Some c)
    from bsearch_hit [OF r [unfolded Some]] assms(3) show ?thesis
      by (metis nat_less_iff nth_mem)
  qed simp
  with r show ?thesis by simp
qed

subsection \<open>Edge lookup\<close>

lemma ebind_Inr [simp]: "ebind (Inr x) f = f x"
  by (simp add: ebind_def)

lemma ebind_Inl [simp]: "ebind (Inl e) f = Inl e"
  by (simp add: ebind_def)

lemma rd_nat: "i < length xs \<Longrightarrow> rd xs (int i) = Inr (xs ! i)"
  by (simp add: rd_def)

lemma rd_unat: "unat u < length xs \<Longrightarrow> rd xs (uint u) = Inr (xs ! unat u)"
  using rd_nat [of "unat u" xs] by (simp only: uint_nat)

lemma rd2_unat:
  "unat u < length xss \<Longrightarrow> 0 \<le> c \<Longrightarrow> c < int (length (xss ! unat u))
    \<Longrightarrow> rd2 xss (uint u) c = Inr (xss ! unat u ! nat c)"
  by (simp add: rd2_def rd_unat rd_Inr)

lemma short_length: "sint (b :: count_type) = int (length xs) \<Longrightarrow> length xs < 2147483648"
  using sint_lt [of b] by simp

text \<open>What \<open>HasEdge\<close> returns when the search over the out-array of \<open>u\<close> ends.\<close>

lemma HasEdge_search:
  assumes "uint u < n_nodes g" "uint v < n_nodes g" "out_ok g u"
    and "bsearch (out g ! unat u) v 0 (int (length (out g ! unat u))) = Inr r"
  shows "HasEdge g u v pattr =
     Inr (case r of
            None \<Rightarrow> (False, None)
          | Some c \<Rightarrow> (True, if pattr then Some (out_attr g ! unat u ! nat c) else None))"
proof (cases r)
  case None
  with assms show ?thesis
    by (simp add: HasEdge_def out_ok_def rd_unat)
next
  case (Some c)
  from bsearch_hit [OF assms(4) [unfolded Some]]
  have c: "0 \<le> c" "c < int (length (out g ! unat u))" by auto
  then have "rd2 (out_attr g) (uint u) c = Inr (out_attr g ! unat u ! nat c)"
    using assms(3) by (intro rd2_unat) (auto simp: out_ok_def)
  with assms Some show ?thesis
    by (simp add: HasEdge_def out_ok_def rd_unat)
qed

lemma HasEdge_hit:
  assumes "uint u < n_nodes g" "uint v < n_nodes g" "out_ok g u"
    and "sorted_wrt (<) (out g ! unat u)"
    and "c < length (out g ! unat u)" "out g ! unat u ! c = v"
  shows "HasEdge g u v pattr = Inr (True, if pattr then Some (out_attr g ! unat u ! c) else None)"
    and "edge_entry g u v = Some (out_attr g ! unat u ! c)"
proof -
  have len: "length (out g ! unat u) < 2147483648"
    using assms(3) short_length by (auto simp: out_ok_def)
  have "bsearch (out g ! unat u) v 0 (int (length (out g ! unat u))) = Inr (Some (int c))"
    using assms(5,6) by (intro bsearch_find [OF assms(4) len]) auto
  from HasEdge_search [OF assms(1-3) this]
  show "HasEdge g u v pattr = Inr (True, if pattr then Some (out_attr g ! unat u ! c) else None)"
    by simp
  have "distinct (out g ! unat u)"
    using assms(4) by (simp add: strict_sorted_iff)
  then show "edge_entry g u v = Some (out_attr g ! unat u ! c)"
    using assms(3,5,6) map_of_zip_nth [of "out g ! unat u" "out_attr g ! unat u" c]
    by (auto simp: edge_entry_def out_ok_def)
qed

lemma HasEdge_miss:
  assumes "uint u < n_nodes g" "uint v < n_nodes g" "out_ok g u"
    and "sorted_wrt (<) (out g ! unat u)"
    and "v \<notin> set (out g ! unat u)"
  shows "HasEdge g u v pattr = Inr (False, None)"
    and "edge_entry g u v = None"
proof -
  have len: "length (out g ! unat u) < 2147483648"
    using assms(3) short_length by (auto simp: out_ok_def)
  from HasEdge_search [OF assms(1-3) bsearch_miss [OF assms(4) len assms(5)]]
  show "HasEdge g u v pattr = Inr (False, None)"
    by simp
  show "edge_entry g u v = None"
    using assms(3,5) by (simp add: edge_entry_def out_ok_def)
qed

lemma HasEdge_entry:
  assumes "uint u < n_nodes g" "uint v < n_nodes g" "out_ok g u"
    and "sorted_wrt (<) (out g ! unat u)"
  shows "HasEdge g u v pattr =
     Inr (case edge_entry g u v of
            None \<Rightarrow> (False, None)
          | Some a \<Rightarrow> (True, if pattr then Some a else None))"
proof (cases "v \<in> set (out g ! unat u)")
  case True
  then obtain c where c: "c < length (out g ! unat u)" "out g ! unat u ! c = v"
    by (auto simp: in_set_conv_nth)
  from HasEdge_hit [OF assms c] show ?thesis by simp
next
  case False
  from HasEdge_miss [OF assms False] show ?thesis by simp
qed

lemma edge_entry_None:
  "out_ok g u \<Longrightarrow> (edge_entry g u v = None) = (v \<notin> set (out g ! unat u))"
  by (simp add: edge_entry_def out_ok_def)

text \<open>
  C3. On a graph whose out-array at \<open>u\<close> is strictly ascending, for node ids
  \<open>u, v < n\<close>: \<open>HasEdge(u, v, pattr)\<close> returns true if and only if \<open>v\<close> occurs in the
  out-array of \<open>u\<close>; on a hit with a non-null \<open>pattr\<close> it stores the attribute of
  that out-entry into \<open>*pattr\<close>; on a miss it returns false and writes nothing
  (nor does it write through a null \<open>pattr\<close>).
\<close>

theorem HasEdge_binary_search:
  assumes "uint u < n_nodes g" and "uint v < n_nodes g"
    and "out_ok g u" and "sorted_wrt (<) (out g ! unat u)"
  shows "HasEdge g u v pattr =
           Inr (v \<in> set (out g ! unat u),
                if pattr then edge_entry g u v else None)
         \<and> (edge_entry g u v = None) = (v \<notin> set (out g ! unat u))
         \<and> (\<forall>c < length (out g ! unat u).
              out g ! unat u ! c = v \<longrightarrow> edge_entry g u v = Some (out_attr g ! unat u ! c))"
proof (intro conjI allI impI)
  show none: "(edge_entry g u v = None) = (v \<notin> set (out g ! unat u))"
    by (rule edge_entry_None [OF assms(3)])
  show "HasEdge g u v pattr =
      Inr (v \<in> set (out g ! unat u), if pattr then edge_entry g u v else None)"
    using HasEdge_entry [OF assms, of pattr] none
    by (cases "edge_entry g u v") auto
  show "edge_entry g u v = Some (out_attr g ! unat u ! c)"
    if "c < length (out g ! unat u)" "out g ! unat u ! c = v" for c
    by (rule HasEdge_hit(2) [OF assms that])
qed

theorem HasEdge_binary_search_witness:
  "HasEdge tri_graph 0 2 True = Inr (True, Some 12)
   \<and> HasEdge tri_graph 0 2 False = Inr (True, None)
   \<and> HasEdge tri_graph 1 0 True = Inr (False, None)
   \<and> edge_entry tri_graph 0 2 = Some 12 \<and> edge_entry tri_graph 1 0 = None"
proof -
  have h: "uint (0 :: node_id) < n_nodes tri_graph" "uint (1 :: node_id) < n_nodes tri_graph"
    "uint (2 :: node_id) < n_nodes tri_graph"
    "out_ok tri_graph 0" "out_ok tri_graph 1"
    "sorted_wrt (<) (out tri_graph ! unat (0 :: node_id))"
    "sorted_wrt (<) (out tri_graph ! unat (1 :: node_id))"
    by (simp_all add: tri_graph_def out_ok_def)
  have e: "edge_entry tri_graph 0 2 = Some 12" "edge_entry tri_graph 1 0 = None"
    by (simp_all add: tri_graph_def edge_entry_def)
  show ?thesis
    using HasEdge_binary_search [OF h(1) h(3) h(4) h(6), of True]
      HasEdge_binary_search [OF h(1) h(3) h(4) h(6), of False]
      HasEdge_binary_search [OF h(2) h(1) h(5) h(7), of True] e
    by (simp add: tri_graph_def)
qed



subsection \<open>SetEdgeAttr on an absent edge\<close>

lemma rd_Inl: "rd xs i = Inl e \<Longrightarrow> e = UndefinedBehaviour"
  by (simp add: rd_def split: if_splits)

lemma wr_Inl: "wr xs i v = Inl e \<Longrightarrow> e = UndefinedBehaviour"
  by (simp add: wr_def split: if_splits)

lemma rd2_Inl: "rd2 xss i j = Inl e \<Longrightarrow> e = UndefinedBehaviour"
  by (auto simp: rd2_def ebind_def split: sum.splits dest: rd_Inl)

lemma wr2_Inl: "wr2 xss i j v = Inl e \<Longrightarrow> e = UndefinedBehaviour"
  by (auto simp: wr2_def ebind_def split: sum.splits dest: rd_Inl wr_Inl)

lemma bsearch_Inl: "bsearch ids x a b = Inl e \<Longrightarrow> e = UndefinedBehaviour"
proof (induction ids x a b rule: bsearch.induct)
  case (1 ids x a b)
  show ?case
  proof (cases "a < b \<and> a \<le> mid a b \<and> mid a b < b")
    case False
    with "1.prems" show ?thesis
      by (subst (asm) bsearch.simps) (auto simp: Let_def split: if_splits)
  next
    case True
    then have ab: "a < b" and m: "a \<le> mid a b \<and> mid a b < b" by auto
    show ?thesis
    proof (cases "rd ids (mid a b)")
      case (Inl e')
      with "1.prems" True show ?thesis
        by (subst (asm) bsearch.simps) (auto simp: Let_def dest: rd_Inl)
    next
      case (Inr y)
      consider "y < x" | "\<not> y < x" "x < y" | "y = x" by fastforce
      then show ?thesis
      proof cases
        case 1
        with "1.prems" True Inr have "bsearch ids x (mid a b + 1) b = Inl e"
          by (subst (asm) bsearch.simps) (simp add: Let_def)
        from "1.IH"(1) [OF ab refl m Inr 1 this] show ?thesis .
      next
        case 2
        with "1.prems" True Inr have "bsearch ids x a (mid a b) = Inl e"
          by (subst (asm) bsearch.simps) (simp add: Let_def)
        from "1.IH"(2) [OF ab refl m Inr 2 this] show ?thesis .
      next
        case 3
        with "1.prems" True Inr show ?thesis
          by (subst (asm) bsearch.simps) (simp add: Let_def)
      qed
    qed
  qed
qed


lemma wr_nat: "i < length xs \<Longrightarrow> wr xs (int i) v = Inr (xs[i := v])"
  by (simp add: wr_def)

lemma wr_unat: "unat u < length xs \<Longrightarrow> wr xs (uint u) v = Inr (xs[unat u := v])"
  using wr_nat [of "unat u" xs v] by (simp only: uint_nat)

lemma wr_Inr: "0 \<le> i \<Longrightarrow> i < int (length xs) \<Longrightarrow> wr xs i v = Inr (xs[nat i := v])"
  by (simp add: wr_def)

lemma wr2_unat:
  "unat u < length xss \<Longrightarrow> 0 \<le> c \<Longrightarrow> c < int (length (xss ! unat u))
    \<Longrightarrow> wr2 xss (uint u) c x = Inr (xss[unat u := (xss ! unat u)[nat c := x]])"
  by (simp add: wr2_def rd_unat wr_unat wr_Inr)

text \<open>The out-half of \<open>SetEdgeAttr\<close>, once the search over the out-array has ended.\<close>

lemma SetEdgeAttr_search:
  assumes "uint u < n_nodes g" "uint v < n_nodes g" "out_ok g u"
    and "bsearch (out g ! unat u) v 0 (int (length (out g ! unat u))) = Inr r"
  shows "SetEdgeAttr g u v a d =
     (case r of
        None \<Rightarrow> (Some UnknownEdge, g, [])
      | Some c \<Rightarrow>
          SetEdgeAttr_in
            (g\<lparr>out_attr := (out_attr g)[unat u := (out_attr g ! unat u)[nat c := a]]\<rparr>) u v a
            (if d then DestroyEdge g (out_attr g ! unat u ! nat c) else []))"
proof (cases r)
  case None
  with assms show ?thesis
    by (simp add: SetEdgeAttr_def out_ok_def rd_unat)
next
  case (Some c)
  from bsearch_hit [OF assms(4) [unfolded Some]]
  have c: "0 \<le> c" "c < int (length (out_attr g ! unat u))"
    using assms(3) by (auto simp: out_ok_def)
  have u: "unat u < length (out_attr g)"
    using assms(3) by (simp add: out_ok_def)
  show ?thesis
    using assms Some rd2_unat [OF u c] wr2_unat [OF u c, of a]
    by (simp add: SetEdgeAttr_def out_ok_def rd_unat)
qed




subsection \<open>Attribute hooks\<close>

text \<open>
  C9. Without a node comparator \<open>CompatibleNode(a, b)\<close> is true; with a comparator
  object \<open>c\<close> installed it is \<open>c.compatible(a, b)\<close>; the same holds for
  \<open>CompatibleEdge\<close> and the edge comparator. Both are total functions into \<open>bool\<close>:
  they have no failing path. The adapter around a NULL function answers true.
\<close>

theorem Compatible_default_true:
  "(node_comparator g = None \<longrightarrow> CompatibleNode g a b)
   \<and> (node_comparator g = Some c \<longrightarrow> CompatibleNode g a b = compatible c a b)
   \<and> (edge_comparator g = None \<longrightarrow> CompatibleEdge g a b)
   \<and> (edge_comparator g = Some c \<longrightarrow> CompatibleEdge g a b = compatible c a b)
   \<and> compatible (FunctionAttrComparator None) a b
   \<and> compatible (FunctionAttrComparator (Some f)) a b = f a b"
  by (simp add: CompatibleNode_def CompatibleEdge_def)

theorem Compatible_default_true_witness:
  "CompatibleNode tri_graph 11 12
   \<and> CompatibleEdge (tri_graph\<lparr>edge_comparator := Some (FunctionAttrComparator (Some (=)))\<rparr>) 11 12
       = compatible (FunctionAttrComparator (Some (=))) 11 12
   \<and> \<not> CompatibleEdge (tri_graph\<lparr>edge_comparator := Some (FunctionAttrComparator (Some (=)))\<rparr>) 11 12
   \<and> CompatibleEdge tri_graph 11 12
   \<and> CompatibleNode (tri_graph\<lparr>node_comparator := Some (UserAttrComparator (\<lambda>x y. x < y))\<rparr>) 11 12
       = compatible (UserAttrComparator (\<lambda>x y. x < y)) 11 12
   \<and> CompatibleNode (tri_graph\<lparr>node_comparator := Some (UserAttrComparator (\<lambda>x y. x < y))\<rparr>) 11 12"
proof -
  have n: "node_comparator tri_graph = None" "edge_comparator tri_graph = None"
    by (simp_all add: tri_graph_def)
  show ?thesis
    using Compatible_default_true [of tri_graph 11 12 "FunctionAttrComparator (Some (=))"]
      Compatible_default_true
        [of "tri_graph\<lparr>edge_comparator := Some (FunctionAttrComparator (Some (=)))\<rparr>" 11 12
          "FunctionAttrComparator (Some (=))"]
      Compatible_default_true
        [of "tri_graph\<lparr>node_comparator := Some (UserAttrComparator (\<lambda>x y. x < y))\<rparr>" 11 12
          "UserAttrComparator (\<lambda>x y. x < y)"] n
    by simp
qed

lemma for_each_cong:
  "(\<And>i s. i \<in> set js \<Longrightarrow> f i s = h i s) \<Longrightarrow> for_each f js s = for_each h js s"
  by (induction js arbitrary: s) (auto split: sum.splits)

lemma destroy_edges_node_destroyer:
  "destroy_edges (g\<lparr>node_destroyer := d\<rparr>) = destroy_edges g"
  by (simp add: destroy_edges_def DestroyEdge_def)

text \<open>
  C7. \<open>SetEdgeDestroy(fn)\<close> installs a \<open>FunctionAttrDestroyer\<close> around \<open>fn\<close> in the
  node destroyer slot, deletes the node destroyer installed before (if any) and
  leaves the edge destroyer slot unchanged. So the destruction of edge attributes at
  teardown is what it was before the call: \<open>DestroyEdge\<close> and the first loop of the
  destructor are unchanged, and with an empty edge slot no function is called for an
  edge attribute, whereas \<open>DestroyNode\<close> now calls \<open>fn\<close>.
\<close>

theorem SetEdgeDestroy_sets_node_slot:
  "node_destroyer (fst (SetEdgeDestroy g fn)) = Some (FunctionAttrDestroyer fn)
   \<and> edge_destroyer (fst (SetEdgeDestroy g fn)) = edge_destroyer g
   \<and> snd (SetEdgeDestroy g fn) =
       (case node_destroyer g of None \<Rightarrow> [] | Some d \<Rightarrow> [DeleteDestroyer d])
   \<and> DestroyEdge (fst (SetEdgeDestroy g fn)) a = DestroyEdge g a
   \<and> destroy_edges (fst (SetEdgeDestroy g fn)) = destroy_edges g
   \<and> (edge_destroyer g = None \<longrightarrow> DestroyEdge (fst (SetEdgeDestroy g fn)) a = [])
   \<and> DestroyNode (fst (SetEdgeDestroy g fn)) a = (case fn of None \<Rightarrow> [] | Some f \<Rightarrow> [Call f a])"
  by (simp add: SetEdgeDestroy_def SetNodeDestroyer_def delete_destroyer_def
      DestroyEdge_def DestroyNode_def destroy_edges_node_destroyer)

theorem SetEdgeDestroy_sets_node_slot_witness:
  "edge_destroyer tri_graph = None
   \<and> node_destroyer (fst (SetEdgeDestroy tri_graph (Some 7))) = Some (FunctionAttrDestroyer (Some 7))
   \<and> edge_destroyer (fst (SetEdgeDestroy tri_graph (Some 7))) = None
   \<and> DestroyEdge (fst (SetEdgeDestroy tri_graph (Some 7))) 12 = []
   \<and> destroy_edges (fst (SetEdgeDestroy tri_graph (Some 7))) = Inr []
   \<and> destroy_nodes (fst (SetEdgeDestroy tri_graph (Some 7))) =
        Inr [Call 7 100, Call 7 101, Call 7 102]
   \<and> snd (SetEdgeDestroy (fst (SetNodeDestroy tri_graph (Some 3))) (Some 7)) =
        [DeleteDestroyer (FunctionAttrDestroyer (Some 3))]"
proof -
  have n: "edge_destroyer tri_graph = None"
    by (simp add: tri_graph_def)
  have e: "destroy_edges tri_graph = Inr []"
    by code_simp
  have d: "destroy_nodes (fst (SetEdgeDestroy tri_graph (Some 7))) =
      Inr [Call 7 100, Call 7 101, Call 7 102]"
    by code_simp
  have s: "node_destroyer (fst (SetNodeDestroy tri_graph (Some 3))) =
      Some (FunctionAttrDestroyer (Some 3))"
    by (simp add: SetNodeDestroy_def SetNodeDestroyer_def)
  note t = SetEdgeDestroy_sets_node_slot [of tri_graph "Some 7" 12]
  note t' = SetEdgeDestroy_sets_node_slot [of "fst (SetNodeDestroy tri_graph (Some 3))" "Some 7" 12]
  from t n have 1: "DestroyEdge (fst (SetEdgeDestroy tri_graph (Some 7))) 12 = []"
    by blast
  from t e have 2: "destroy_edges (fst (SetEdgeDestroy tri_graph (Some 7))) = Inr []"
    by simp
  from t n have 3: "edge_destroyer (fst (SetEdgeDestroy tri_graph (Some 7))) = None"
    by simp
  from t have 4: "node_destroyer (fst (SetEdgeDestroy tri_graph (Some 7))) =
      Some (FunctionAttrDestroyer (Some 7))"
    by blast
  from t' s have 5: "snd (SetEdgeDestroy (fst (SetNodeDestroy tri_graph (Some 3))) (Some 7)) =
      [DeleteDestroyer (FunctionAttrDestroyer (Some 3))]"
    by simp
  from n 1 2 3 4 5 d show ?thesis
    by blast
qed

subsection \<open>The first phase of the constructor\<close>

lemma for_each_append:
  "for_each body (xs @ ys) s = ebind (for_each body xs s) (for_each body ys)"
  by (induction xs arbitrary: s) (auto split: sum.splits)

lemma upto_n_int [simp]: "upto_n (int m) = map int [0..<m]"
  by (simp add: upto_n_def)

lemma uint_less_int: "(uint v < int k) = (unat v < k)"
  by (metis uint_nat of_nat_less_iff)

lemma rd_unat_out: "\<not> unat v < length xs \<Longrightarrow> rd xs (uint v) = Inl UndefinedBehaviour"
  by (simp add: rd_def uint_less_int)

lemma upto_n_0: "upto_n 0 = []"
  by (simp add: upto_n_def)

lemma for_each_upto_Suc:
  "for_each body (map int [0..<Suc m]) s =
     ebind (for_each body (map int [0..<m]) s) (body (int m))"
  by (simp add: for_each_append ebind_def split: sum.splits)

lemma length_padded: "length ys \<le> k \<Longrightarrow> length (padded ys k x) = k"
  by (simp add: padded_def)

lemma padded_Nil: "padded [] k x = replicate k x"
  by (simp add: padded_def)

lemma padded_full: "length ys = k \<Longrightarrow> padded ys k x = ys"
  by (simp add: padded_def)

lemma padded_snoc:
  "length ys < k \<Longrightarrow> (padded ys k x)[length ys := w] = padded (ys @ [w]) k x"
  by (cases "k - length ys") (simp_all add: padded_def list_update_append Suc_diff_Suc)

lemma length_bump [simp]: "length (bump cs v) = length cs"
  by (simp add: bump_def)

lemma length_foldl_bump [simp]: "length (foldl bump cs vs) = length cs"
  by (induction vs arbitrary: cs) simp_all

text \<open>The innermost loop of the first phase.\<close>

lemma load_edge_step:
  assumes "i < length (out g)" "i < length (out_attr g)"
    and "out g ! i = padded ys k 0" "out_attr g ! i = padded zs k NULL"
    and "length ys = j" "length zs = j" "j < k"
    and "loader_GetOutEdge L (word_of_nat i) (int j) = (v, a)"
  shows "load_edge L (int i) (int j) g =
     (if unat v < length (in_count g)
      then Inr (g\<lparr>out_attr := (out_attr g)[i := padded (zs @ [a]) k NULL],
                 out := (out g)[i := padded (ys @ [v]) k 0],
                 in_count := bump (in_count g) v\<rparr>)
      else Inl UndefinedBehaviour)"
proof -
  have "wr2 (out_attr g) (int i) (int j) a = Inr ((out_attr g)[i := padded (zs @ [a]) k NULL])"
    using assms padded_snoc [of zs k NULL a]
    by (simp add: wr2_def rd_nat wr_nat length_padded)
  moreover
  have "wr2 (out g) (int i) (int j) v = Inr ((out g)[i := padded (ys @ [v]) k 0])"
    using assms padded_snoc [of ys k 0 v]
    by (simp add: wr2_def rd_nat wr_nat length_padded)
  moreover have "unat v < length (in_count g) \<Longrightarrow>
      rd (in_count g) (uint v) = Inr (in_count g ! unat v)"
    by (rule rd_unat)
  moreover have "unat v < length (in_count g) \<Longrightarrow>
      wr (in_count g) (uint v) x = Inr ((in_count g)[unat v := x])" for x
    by (rule wr_unat)
  moreover have "\<not> unat v < length (in_count g) \<Longrightarrow>
      rd (in_count g) (uint v) = Inl UndefinedBehaviour"
    by (rule rd_unat_out)
  ultimately show ?thesis
    using assms(8) by (simp add: load_edge_def bump_def)
qed


lemma load_edges_loop:
  assumes "i < length (out g)" "i < length (out_attr g)"
    and "out g ! i = replicate k 0" "out_attr g ! i = replicate k NULL"
  shows "m \<le> k \<Longrightarrow>
     for_each (load_edge L (int i)) (map int [0..<m]) g =
       (if list_all (\<lambda>e. unat (fst e) < length (in_count g))
             (map (\<lambda>j. loader_GetOutEdge L (word_of_nat i) (int j)) [0..<m])
        then Inr (g\<lparr>out_attr := (out_attr g)[i := padded (map (\<lambda>j. snd (loader_GetOutEdge L (word_of_nat i) (int j))) [0..<m]) k NULL],
                   out := (out g)[i := padded (map (\<lambda>j. fst (loader_GetOutEdge L (word_of_nat i) (int j))) [0..<m]) k 0],
                   in_count := foldl bump (in_count g) (map (\<lambda>j. fst (loader_GetOutEdge L (word_of_nat i) (int j))) [0..<m])\<rparr>)
        else Inl UndefinedBehaviour)"
proof (induction m)
  case 0
  then show ?case
    using assms by (simp add: padded_Nil  list_update_same_conv [THEN iffD2])
next
  case (Suc m)
  let ?E = "\<lambda>j. loader_GetOutEdge L (word_of_nat i) (int j)"
  let ?ok = "list_all (\<lambda>e. unat (fst e) < length (in_count g)) (map ?E [0..<m])"
  let ?gm = "g\<lparr>out_attr := (out_attr g)[i := padded (map (\<lambda>j. snd (?E j)) [0..<m]) k NULL],
                out := (out g)[i := padded (map (\<lambda>j. fst (?E j)) [0..<m]) k 0],
                in_count := foldl bump (in_count g) (map (\<lambda>j. fst (?E j)) [0..<m])\<rparr>"
  have IH: "for_each (load_edge L (int i)) (map int [0..<m]) g =
      (if ?ok then Inr ?gm else Inl UndefinedBehaviour)"
    using Suc by simp
  show ?case
  proof (cases ?ok)
    case False
    then have "\<not> list_all (\<lambda>e. unat (fst e) < length (in_count g)) (map ?E [0..<Suc m])"
      by simp
    then show ?thesis
      using IH False by (simp add: for_each_upto_Suc del: upt_Suc)
  next
    case True
    obtain v a where va: "?E m = (v, a)" by (cases "?E m")
    have step: "load_edge L (int i) (int m) ?gm =
       (if unat v < length (in_count ?gm)
        then Inr (?gm\<lparr>out_attr := (out_attr ?gm)[i := padded (map (\<lambda>j. snd (?E j)) [0..<m] @ [a]) k NULL],
                   out := (out ?gm)[i := padded (map (\<lambda>j. fst (?E j)) [0..<m] @ [v]) k 0],
                   in_count := bump (in_count ?gm) v\<rparr>)
        else Inl UndefinedBehaviour)"
      using assms(1,2) Suc.prems va
      by (intro load_edge_step) simp_all
    show ?thesis
      using IH True va
      by (simp add: for_each_upto_Suc step del: upt_Suc) (simp add: va)
  qed
qed


lemma new_array_Inr: "0 \<le> k \<Longrightarrow> new_array k x = Inr (replicate (nat k) x)"
  by (simp add: new_array_def)

lemma new_array_Inl: "k < 0 \<Longrightarrow> new_array k x = Inl UndefinedBehaviour"
  by (simp add: new_array_def)

lemma load_node_step:
  assumes "i < length (out_count g)" "i < length (out g)" "i < length (out_attr g)"
  shows "load_node L (int i) g =
     (if 0 \<le> sint (edge_count L i)
         \<and> list_all (\<lambda>e. unat (fst e) < length (in_count g)) (reported L i)
      then Inr (g\<lparr>out_count := (out_count g)[i := edge_count L i],
                 out_attr := (out_attr g)[i := map snd (reported L i)],
                 out := (out g)[i := map fst (reported L i)],
                 in_count := foldl bump (in_count g) (map fst (reported L i))\<rparr>)
      else Inl UndefinedBehaviour)"
proof (cases "0 \<le> sint (edge_count L i)")
  case False
  then show ?thesis
    using assms by (simp add: load_node_def Let_def edge_count_def wr_nat new_array_Inl)
next
  case True
  let ?k = "nat (sint (edge_count L i))"
  let ?g = "g\<lparr>out_count := (out_count g)[i := edge_count L i],
              out := (out g)[i := replicate ?k 0],
              out_attr := (out_attr g)[i := replicate ?k NULL]\<rparr>"
  have loop: "for_each (load_edge L (int i)) (map int [0..<?k]) ?g =
       (if list_all (\<lambda>e. unat (fst e) < length (in_count ?g))
             (map (\<lambda>j. loader_GetOutEdge L (word_of_nat i) (int j)) [0..<?k])
        then Inr (?g\<lparr>out_attr := (out_attr ?g)[i := padded (map (\<lambda>j. snd (loader_GetOutEdge L (word_of_nat i) (int j))) [0..<?k]) ?k NULL],
                   out := (out ?g)[i := padded (map (\<lambda>j. fst (loader_GetOutEdge L (word_of_nat i) (int j))) [0..<?k]) ?k 0],
                   in_count := foldl bump (in_count ?g) (map (\<lambda>j. fst (loader_GetOutEdge L (word_of_nat i) (int j))) [0..<?k])\<rparr>)
        else Inl UndefinedBehaviour)"
    using assms by (intro load_edges_loop) simp_all
  have "load_node L (int i) g = for_each (load_edge L (int i)) (map int [0..<?k]) ?g"
    using assms True
    by (simp add: load_node_def Let_def edge_count_def [symmetric] wr_nat new_array_Inr upto_n_def)
  then show ?thesis
    using True by (simp add: loop reported_def padded_full comp_def)
qed


lemma padded_snoc_map:
  "m < k \<Longrightarrow> (padded (map f [0..<m]) k x)[m := f m] = padded (map f [0..<Suc m]) k x"
  using padded_snoc [of "map f [0..<m]" k x "f m"] by simp

lemma load_nodes_loop:
  assumes "out_count g = replicate n 0" "out g = replicate n []" "out_attr g = replicate n []"
    and "in_count g = replicate n 0"
  shows "m \<le> n \<Longrightarrow>
     for_each (load_node L) (map int [0..<m]) g =
       (if list_all (\<lambda>i. 0 \<le> sint (edge_count L i)
                           \<and> list_all (\<lambda>e. unat (fst e) < n) (reported L i)) [0..<m]
        then Inr (g\<lparr>out_count := padded (map (edge_count L) [0..<m]) n 0,
                   out_attr := padded (map (\<lambda>i. map snd (reported L i)) [0..<m]) n [],
                   out := padded (map (\<lambda>i. map fst (reported L i)) [0..<m]) n [],
                   in_count := foldl bump (replicate n 0)
                                 (concat (map (\<lambda>i. map fst (reported L i)) [0..<m]))\<rparr>)
        else Inl UndefinedBehaviour)"
proof (induction m)
  case 0
  then show ?case
    using assms by (simp add: padded_Nil)
next
  case (Suc m)
  let ?P = "\<lambda>i. 0 \<le> sint (edge_count L i) \<and> list_all (\<lambda>e. unat (fst e) < n) (reported L i)"
  let ?gm = "g\<lparr>out_count := padded (map (edge_count L) [0..<m]) n 0,
                out_attr := padded (map (\<lambda>i. map snd (reported L i)) [0..<m]) n [],
                out := padded (map (\<lambda>i. map fst (reported L i)) [0..<m]) n [],
                in_count := foldl bump (replicate n 0)
                              (concat (map (\<lambda>i. map fst (reported L i)) [0..<m]))\<rparr>"
  have IH: "for_each (load_node L) (map int [0..<m]) g =
      (if list_all ?P [0..<m] then Inr ?gm else Inl UndefinedBehaviour)"
    using Suc by simp
  have m: "m < n" using Suc.prems by simp
  show ?case
  proof (cases "list_all ?P [0..<m]")
    case False
    then have "\<not> list_all ?P [0..<Suc m]" by simp
    then show ?thesis
      using IH False by (simp add: for_each_upto_Suc del: upt_Suc)
  next
    case True
    have step: "load_node L (int m) ?gm =
       (if 0 \<le> sint (edge_count L m)
           \<and> list_all (\<lambda>e. unat (fst e) < length (in_count ?gm)) (reported L m)
        then Inr (?gm\<lparr>out_count := (out_count ?gm)[m := edge_count L m],
                   out_attr := (out_attr ?gm)[m := map snd (reported L m)],
                   out := (out ?gm)[m := map fst (reported L m)],
                   in_count := foldl bump (in_count ?gm) (map fst (reported L m))\<rparr>)
        else Inl UndefinedBehaviour)"
      using m by (intro load_node_step) (simp_all add: length_padded)
    show ?thesis
    proof (cases "?P m")
      case False
      then have "\<not> list_all ?P [0..<Suc m]" by simp
      then show ?thesis
        using IH True False by (simp add: for_each_upto_Suc step del: upt_Suc)
    next
      case Pm: True
      then have all: "list_all ?P [0..<Suc m]" using True by simp
      have "for_each (load_node L) (map int [0..<Suc m]) g = load_node L (int m) ?gm"
        using IH True by (simp add: for_each_upto_Suc del: upt_Suc)
      also have "\<dots> = Inr (?gm\<lparr>out_count := (out_count ?gm)[m := edge_count L m],
                   out_attr := (out_attr ?gm)[m := map snd (reported L m)],
                   out := (out ?gm)[m := map fst (reported L m)],
                   in_count := foldl bump (in_count ?gm) (map fst (reported L m))\<rparr>)"
        using Pm by (simp add: step)
      also have "\<dots> = Inr (g\<lparr>out_count := padded (map (edge_count L) [0..<Suc m]) n 0,
                   out_attr := padded (map (\<lambda>i. map snd (reported L i)) [0..<Suc m]) n [],
                   out := padded (map (\<lambda>i. map fst (reported L i)) [0..<Suc m]) n [],
                   in_count := foldl bump (replicate n 0)
                                 (concat (map (\<lambda>i. map fst (reported L i)) [0..<Suc m]))\<rparr>)"
      proof -
        have "(padded (map (\<lambda>i. map snd (reported L i)) [0..<m]) n [])[m := map snd (reported L m)]
            = padded (map (\<lambda>i. map snd (reported L i)) [0..<Suc m]) n []"
          and "(padded (map (\<lambda>i. map fst (reported L i)) [0..<m]) n [])[m := map fst (reported L m)]
            = padded (map (\<lambda>i. map fst (reported L i)) [0..<Suc m]) n []"
          and "(padded (map (edge_count L) [0..<m]) n 0)[m := edge_count L m]
            = padded (map (edge_count L) [0..<Suc m]) n 0"
          using m padded_snoc_map [of m n "\<lambda>i. map snd (reported L i)" "[]"]
            padded_snoc_map [of m n "\<lambda>i. map fst (reported L i)" "[]"]
            padded_snoc_map [of m n "edge_count L" 0]
          by simp_all
        then show ?thesis
          by simp
      qed
      finally show ?thesis
        using all by (simp del: upt_Suc)
    qed
  qed
qed

lemma load_out_exact:
  "load_out L = (if loadable L then Inr (loaded_graph L) else Inl UndefinedBehaviour)"
proof (cases "0 \<le> loader_NodeCount L")
  case False
  then show ?thesis
    by (simp add: load_out_def alloc_graph_def Let_def new_array_Inl loadable_def)
next
  case True
  let ?n = "nat (loader_NodeCount L)"
  let ?g = "\<lparr>n_nodes = loader_NodeCount L,
             attr = map (\<lambda>i. loader_GetNodeAttr L (word_of_int i)) (upto_n (loader_NodeCount L)),
             in_count = replicate ?n 0, inn = replicate ?n [], in_attr = replicate ?n [],
             out_count = replicate ?n 0, out = replicate ?n [], out_attr = replicate ?n [],
             node_destroyer = None, edge_destroyer = None,
             node_comparator = None, edge_comparator = None\<rparr>"
  have "load_out L = for_each (load_node L) (map int [0..<?n]) ?g"
    using True by (simp add: load_out_def alloc_graph_def Let_def new_array_Inr upto_n_def)
  also have "\<dots> =
       (if list_all (\<lambda>i. 0 \<le> sint (edge_count L i)
                           \<and> list_all (\<lambda>e. unat (fst e) < ?n) (reported L i)) [0..<?n]
        then Inr (?g\<lparr>out_count := padded (map (edge_count L) [0..<?n]) ?n 0,
                   out_attr := padded (map (\<lambda>i. map snd (reported L i)) [0..<?n]) ?n [],
                   out := padded (map (\<lambda>i. map fst (reported L i)) [0..<?n]) ?n [],
                   in_count := foldl bump (replicate ?n 0)
                                 (concat (map (\<lambda>i. map fst (reported L i)) [0..<?n]))\<rparr>)
        else Inl UndefinedBehaviour)"
    by (intro load_nodes_loop) simp_all
  finally show ?thesis
    using True
    by (simp add: loadable_def loaded_graph_def Let_def padded_full upto_n_def comp_def)
qed

subsection \<open>The second phase of the constructor\<close>

lemma unat_node: "j < 65536 \<Longrightarrow> unat (word_of_nat j :: node_id) = j"
  by (simp add: unat_of_nat)

lemma uint_node: "j < 65536 \<Longrightarrow> uint (word_of_nat j :: node_id) = int j"
  by (simp add: uint_nat unat_node)

lemma HasEdge_same_out: "same_out g g' \<Longrightarrow> HasEdge g u v p = HasEdge g' u v p"
  unfolding same_out_def HasEdge_def by (elim conjE) (simp only:)

lemma GetEdgeAttr_same_out: "same_out g g' \<Longrightarrow> GetEdgeAttr g u v = GetEdgeAttr g' u v"
  by (simp add: GetEdgeAttr_def HasEdge_same_out)

lemma HasEdge_find:
  assumes "n_nodes g = int n" "n \<le> 65536" "u < n" "v < n" "out_ok g (word_of_nat u)"
  shows "HasEdge g (word_of_nat u) (word_of_nat v) p =
     Inr (case find_edge g u v of
            None \<Rightarrow> (False, None)
          | Some c \<Rightarrow> (True, if p then Some (out_attr g ! u ! nat c) else None))"
proof -
  have u: "unat (word_of_nat u :: node_id) = u" "uint (word_of_nat u :: node_id) = int u"
    and v: "uint (word_of_nat v :: node_id) = int v"
    using assms by (simp_all add: unat_node uint_node)
  have len: "length (out g ! u) < 2147483648"
    using assms(5) short_length by (auto simp: out_ok_def u)
  obtain r where r: "bsearch (out g ! u) (word_of_nat v) 0 (int (length (out g ! u))) = Inr r"
    using bsearch_total [OF len, of 0 "int (length (out g ! u))" "word_of_nat v"] by auto
  have "HasEdge g (word_of_nat u) (word_of_nat v) p =
     Inr (case r of
            None \<Rightarrow> (False, None)
          | Some c \<Rightarrow> (True, if p then Some (out_attr g ! unat (word_of_nat u :: node_id) ! nat c) else None))"
    using assms r by (intro HasEdge_search) (simp_all add: u v)
  then show ?thesis
    using r by (simp add: find_edge_def u split: option.splits)
qed

lemma GetEdgeAttr_find:
  assumes "n_nodes g = int n" "n \<le> 65536" "u < n" "v < n" "out_ok g (word_of_nat u)"
  shows "GetEdgeAttr g (word_of_nat u) (word_of_nat v) = Inr (found_attr g v u)"
  using HasEdge_find [OF assms, of True]
  by (simp add: GetEdgeAttr_def found_attr_def split: option.splits)


lemma out_ok_same_out: "same_out g g' \<Longrightarrow> out_ok g u = out_ok g' u"
  by (simp add: same_out_def out_ok_def)

lemma find_edge_same_out: "same_out g g' \<Longrightarrow> find_edge g u v = find_edge g' u v"
  by (simp add: same_out_def find_edge_def)

lemma found_attr_same_out: "same_out g g' \<Longrightarrow> found_attr g v u = found_attr g' v u"
  by (simp add: found_attr_def find_edge_same_out split: option.splits) (simp add: same_out_def)

lemma wr2_snoc:
  assumes "i < length xss" "xss ! i = padded ys k x" "length ys = l"
  shows "wr2 xss (int i) (int l) w =
     (if l < k then Inr (xss[i := padded (ys @ [w]) k x]) else Inl UndefinedBehaviour)"
  using assms padded_snoc [of ys k x w]
  by (auto simp: wr2_def rd_nat wr_def length_padded padded_def)

lemma fill_in_step:
  assumes "same_out g g0" "n_nodes g0 = int n" "n \<le> 65536" "i < n" "j < n"
    and "out_ok g0 (word_of_nat j)"
    and "i < length (inn g)" "i < length (in_attr g)"
    and "inn g ! i = padded ys k 0" "in_attr g ! i = padded zs k NULL"
    and "length ys = l" "length zs = l"
  shows "fill_in_edge (int i) (int j) (g, int l) =
     (if find_edge g0 j i = None then Inr (g, int l)
      else if l < k
        then Inr (g\<lparr>inn := (inn g)[i := padded (ys @ [word_of_nat j]) k 0],
                   in_attr := (in_attr g)[i := padded (zs @ [found_attr g0 i j]) k NULL]\<rparr>,
                  int (Suc l))
        else Inl UndefinedBehaviour)"
proof -
  have h: "HasEdge g (word_of_nat j) (word_of_nat i) False =
      Inr (case find_edge g0 j i of None \<Rightarrow> (False, None) | Some c \<Rightarrow> (True, None))"
    using HasEdge_find [OF assms(2,3,5,4,6), of False] HasEdge_same_out [OF assms(1)]
    by (simp split: option.splits)
  have a: "GetEdgeAttr g (word_of_nat j) (word_of_nat i) = Inr (found_attr g0 i j)"
    using GetEdgeAttr_find [OF assms(2,3,5,4,6)] GetEdgeAttr_same_out [OF assms(1)]
    by simp
  note w1 = wr2_snoc [OF assms(7,9,11), of "word_of_nat j"]
  note w2 = wr2_snoc [OF assms(8,10,12), of "found_attr g0 i j"]
  show ?thesis
    by (cases "find_edge g0 j i") (simp_all add: fill_in_edge_def h a w1 w2)
qed

lemma fill_in_loop:
  assumes "n_nodes g0 = int n" "n \<le> 65536" "i < n"
    and "\<And>j. j < n \<Longrightarrow> out_ok g0 (word_of_nat j)"
  shows "set js \<subseteq> {..<n} \<Longrightarrow> same_out g g0
    \<Longrightarrow> i < length (inn g) \<Longrightarrow> i < length (in_attr g)
    \<Longrightarrow> inn g ! i = padded ys k 0 \<Longrightarrow> in_attr g ! i = padded zs k NULL
    \<Longrightarrow> length ys = l \<Longrightarrow> length zs = l \<Longrightarrow> l \<le> k
    \<Longrightarrow> for_each (fill_in_edge (int i)) (map int js) (g, int l) =
       (if l + length (filter (\<lambda>j. find_edge g0 j i \<noteq> None) js) \<le> k
        then Inr (g\<lparr>inn := (inn g)
                       [i := padded (ys @ map word_of_nat (filter (\<lambda>j. find_edge g0 j i \<noteq> None) js)) k 0],
                     in_attr := (in_attr g)
                       [i := padded (zs @ map (found_attr g0 i) (filter (\<lambda>j. find_edge g0 j i \<noteq> None) js)) k NULL]\<rparr>,
                  int (l + length (filter (\<lambda>j. find_edge g0 j i \<noteq> None) js)))
        else Inl UndefinedBehaviour)"
proof (induction js arbitrary: g ys zs l)
  case Nil
  have "(inn g)[i := padded ys k 0] = inn g" "(in_attr g)[i := padded zs k NULL] = in_attr g"
    using Nil by (simp_all add: list_update_same_conv)
  then show ?case
    using Nil.prems(9) by simp
next
  case (Cons j js)
  have j: "j < n" and js: "set js \<subseteq> {..<n}"
    using Cons.prems(1) by auto
  note step = fill_in_step [OF Cons.prems(2) assms(1,2,3) j assms(4) [OF j] Cons.prems(3-8)]
  show ?case
  proof (cases "find_edge g0 j i = None")
    case True
    then show ?thesis
      using step Cons.IH [OF js Cons.prems(2-9)] by simp
  next
    case hit: False
    show ?thesis
    proof (cases "l < k")
      case False
      then show ?thesis
        using step hit by simp
    next
      case True
      let ?g = "g\<lparr>inn := (inn g)[i := padded (ys @ [word_of_nat j]) k 0],
                   in_attr := (in_attr g)[i := padded (zs @ [found_attr g0 i j]) k NULL]\<rparr>"
      have so: "same_out ?g g0"
        using Cons.prems(2) by (simp add: same_out_def)
      have "for_each (fill_in_edge (int i)) (map int js) (?g, int (Suc l)) =
       (if Suc l + length (filter (\<lambda>j. find_edge g0 j i \<noteq> None) js) \<le> k
        then Inr (?g\<lparr>inn := (inn ?g)
                       [i := padded ((ys @ [word_of_nat j]) @ map word_of_nat (filter (\<lambda>j. find_edge g0 j i \<noteq> None) js)) k 0],
                     in_attr := (in_attr ?g)
                       [i := padded ((zs @ [found_attr g0 i j]) @ map (found_attr g0 i) (filter (\<lambda>j. find_edge g0 j i \<noteq> None) js)) k NULL]\<rparr>,
                  int (Suc l + length (filter (\<lambda>j. find_edge g0 j i \<noteq> None) js)))
        else Inl UndefinedBehaviour)"
        using Cons.prems True by (intro Cons.IH [OF js so]) simp_all
      then show ?thesis
        using step hit True by simp
    qed
  qed
qed


lemma fill_in_node_step:
  assumes "n_nodes g0 = int n" "n \<le> 65536" "i < n"
    and "\<And>j. j < n \<Longrightarrow> out_ok g0 (word_of_nat j)"
    and "same_out g g0" "i < length (in_count g)" "i < length (inn g)" "i < length (in_attr g)"
  shows "fill_in_node (int i) g =
     (if sint (in_count g ! i) = int (length (sources g0 i))
      then Inr (g\<lparr>inn := (inn g)[i := in_list g0 i], in_attr := (in_attr g)[i := in_attrs g0 i]\<rparr>)
      else if sint (in_count g ! i) < int (length (sources g0 i)) then Inl UndefinedBehaviour
      else Inl InconsistentGraph)"
proof (cases "sint (in_count g ! i) < 0")
  case True
  then show ?thesis
    using assms(6) by (simp add: fill_in_node_def rd_nat Let_def new_array_Inl)
next
  case False
  let ?k = "nat (sint (in_count g ! i))"
  let ?hit = "\<lambda>j. find_edge g0 j i \<noteq> None"
  let ?g = "g\<lparr>inn := (inn g)[i := replicate ?k 0], in_attr := (in_attr g)[i := replicate ?k NULL]\<rparr>"
  have n: "n_nodes g = int n"
    using assms(1,5) by (simp add: same_out_def)
  have src: "sources g0 i = filter ?hit [0..<n]"
    using assms(1) by (simp add: sources_def)
  have so: "same_out ?g g0"
    using assms(5) by (simp add: same_out_def)
  have loop: "for_each (fill_in_edge (int i)) (map int [0..<n]) (?g, int 0) =
       (if 0 + length (filter ?hit [0..<n]) \<le> ?k
        then Inr (?g\<lparr>inn := (inn ?g)[i := padded ([] @ map word_of_nat (filter ?hit [0..<n])) ?k 0],
                     in_attr := (in_attr ?g)
                       [i := padded ([] @ map (found_attr g0 i) (filter ?hit [0..<n])) ?k NULL]\<rparr>,
                  int (0 + length (filter ?hit [0..<n])))
        else Inl UndefinedBehaviour)"
    using assms(7,8)
    by (intro fill_in_loop [OF assms(1-4) _ so]) (auto simp: padded_Nil)
  have "fill_in_node (int i) g =
      ebind (for_each (fill_in_edge (int i)) (map int [0..<n]) (?g, 0))
        (\<lambda>(g', l). if l = sint (in_count g ! i) then Inr g' else Inl InconsistentGraph)"
    using False assms(6,7,8) n
    by (simp add: fill_in_node_def rd_nat Let_def new_array_Inr wr_nat)
  then show ?thesis
    using False loop
    by (auto simp: src in_list_def in_attrs_def padded_full)
qed

lemma fill_in_nodes_loop:
  assumes "n_nodes g = int n" "n \<le> 65536"
    and "\<And>j. j < n \<Longrightarrow> out_ok g (word_of_nat j)"
    and "length (in_count g) = n" "inn g = replicate n []" "in_attr g = replicate n []"
  shows "m \<le> n \<Longrightarrow>
     (list_all (\<lambda>v. sint (in_count g ! v) = int (length (sources g v))) [0..<m] \<longrightarrow>
        for_each fill_in_node (map int [0..<m]) g =
          Inr (g\<lparr>inn := padded (map (in_list g) [0..<m]) n [],
                 in_attr := padded (map (in_attrs g) [0..<m]) n []\<rparr>))
     \<and> (\<not> list_all (\<lambda>v. sint (in_count g ! v) = int (length (sources g v))) [0..<m] \<longrightarrow>
        isl (for_each fill_in_node (map int [0..<m]) g))"
proof (induction m)
  case 0
  then show ?case
    using assms by (simp add: padded_Nil)
next
  case (Suc m)
  let ?ok = "\<lambda>v. sint (in_count g ! v) = int (length (sources g v))"
  let ?gm = "g\<lparr>inn := padded (map (in_list g) [0..<m]) n [],
                in_attr := padded (map (in_attrs g) [0..<m]) n []\<rparr>"
  have m: "m < n" using Suc.prems by simp
  have IH1: "list_all ?ok [0..<m] \<Longrightarrow> for_each fill_in_node (map int [0..<m]) g = Inr ?gm"
    and IH2: "\<not> list_all ?ok [0..<m] \<Longrightarrow> isl (for_each fill_in_node (map int [0..<m]) g)"
    using Suc by simp_all
  show ?case
  proof (cases "list_all ?ok [0..<m]")
    case False
    then have "\<not> list_all ?ok [0..<Suc m]" by simp
    moreover obtain e where "for_each fill_in_node (map int [0..<m]) g = Inl e"
      using IH2 [OF False] by (auto simp: isl_def)
    ultimately show ?thesis
      by (simp add: for_each_upto_Suc del: upt_Suc)
  next
    case True
    have so: "same_out ?gm g" by (simp add: same_out_def)
    have step: "fill_in_node (int m) ?gm =
       (if sint (in_count ?gm ! m) = int (length (sources g m))
        then Inr (?gm\<lparr>inn := (inn ?gm)[m := in_list g m],
                       in_attr := (in_attr ?gm)[m := in_attrs g m]\<rparr>)
        else if sint (in_count ?gm ! m) < int (length (sources g m)) then Inl UndefinedBehaviour
        else Inl InconsistentGraph)"
      using m assms(4)
      by (intro fill_in_node_step [OF assms(1,2) m assms(3) so]) (simp_all add: length_padded)
    have upd: "(padded (map (in_list g) [0..<m]) n [])[m := in_list g m]
          = padded (map (in_list g) [0..<Suc m]) n []"
      "(padded (map (in_attrs g) [0..<m]) n [])[m := in_attrs g m]
          = padded (map (in_attrs g) [0..<Suc m]) n []"
      using m padded_snoc_map [of m n "in_list g" "[]"] padded_snoc_map [of m n "in_attrs g" "[]"]
      by simp_all
    have run: "for_each fill_in_node (map int [0..<Suc m]) g = fill_in_node (int m) ?gm"
      using IH1 [OF True] by (simp add: for_each_upto_Suc del: upt_Suc)
    show ?thesis
    proof (cases "?ok m")
      case False
      then have "\<not> list_all ?ok [0..<Suc m]" by simp
      then show ?thesis
        using False by (simp add: run step del: upt_Suc)
    next
      case okm: True
      then have "list_all ?ok [0..<Suc m]" using True by simp
      then show ?thesis
        using okm upd by (simp add: run step del: upt_Suc)
    qed
  qed
qed

lemma fill_in_exact:
  assumes "n_nodes g = int n" "n \<le> 65536"
    and "\<And>j. j < n \<Longrightarrow> out_ok g (word_of_nat j)"
    and "length (in_count g) = n" "inn g = replicate n []" "in_attr g = replicate n []"
  shows "(for_each fill_in_node (upto_n (n_nodes g)) g = Inr g') =
           (fillable g \<and> g' = filled_graph g)"
proof -
  note l = fill_in_nodes_loop [OF assms order_refl]
  have u: "upto_n (n_nodes g) = map int [0..<n]"
    using assms(1) by simp
  show ?thesis
  proof (cases "fillable g")
    case True
    then show ?thesis
      using l assms(1) by (auto simp: u fillable_def filled_graph_def padded_full)
  next
    case False
    then have "isl (for_each fill_in_node (map int [0..<n]) g)"
      using l assms(1) by (simp add: fillable_def)
    then show ?thesis
      using False by (auto simp: u isl_def)
  qed
qed

subsection \<open>The constructor as a whole\<close>

lemma loadable_D:
  assumes "loadable L" "i < nat (loader_NodeCount L)"
  shows "0 \<le> sint (edge_count L i)" "\<And>e. e \<in> set (reported L i) \<Longrightarrow> unat (fst e) < nat (loader_NodeCount L)"
  using assms by (auto simp: loadable_def list_all_iff)

lemma length_reported: "length (reported L i) = nat (sint (edge_count L i))"
  by (simp add: reported_def)

lemma loaded_graph_simps:
  "n_nodes (loaded_graph L) = loader_NodeCount L"
  "length (out (loaded_graph L)) = nat (loader_NodeCount L)"
  "length (out_count (loaded_graph L)) = nat (loader_NodeCount L)"
  "length (out_attr (loaded_graph L)) = nat (loader_NodeCount L)"
  "length (in_count (loaded_graph L)) = nat (loader_NodeCount L)"
  "inn (loaded_graph L) = replicate (nat (loader_NodeCount L)) []"
  "in_attr (loaded_graph L) = replicate (nat (loader_NodeCount L)) []"
  "i < nat (loader_NodeCount L) \<Longrightarrow> out (loaded_graph L) ! i = map fst (reported L i)"
  "i < nat (loader_NodeCount L) \<Longrightarrow> out_attr (loaded_graph L) ! i = map snd (reported L i)"
  "i < nat (loader_NodeCount L) \<Longrightarrow> out_count (loaded_graph L) ! i = edge_count L i"
  by (simp_all add: loaded_graph_def Let_def)

lemma loaded_graph_out_ok:
  assumes "loadable L" "loader_NodeCount L \<le> 65536" "j < nat (loader_NodeCount L)"
  shows "out_ok (loaded_graph L) (word_of_nat j)"
proof -
  have "unat (word_of_nat j :: node_id) = j"
    using assms(2,3) by (intro unat_node) simp
  then show ?thesis
    using assms(3) loadable_D(1) [OF assms(1,3)]
    by (simp add: out_ok_def loaded_graph_simps length_reported)
qed

lemma ctor_exact:
  assumes "loader_NodeCount L \<le> 65536"
  shows "(ARGraph_impl_ctor L = Inr g) =
     (loadable L \<and> fillable (loaded_graph L) \<and> g = filled_graph (loaded_graph L))"
proof (cases "loadable L")
  case False
  then show ?thesis
    by (simp add: ARGraph_impl_ctor_def load_out_exact)
next
  case True
  then have n0: "0 \<le> loader_NodeCount L"
    by (simp add: loadable_def)
  let ?n = "nat (loader_NodeCount L)"
  have "(for_each fill_in_node (upto_n (n_nodes (loaded_graph L))) (loaded_graph L) = Inr g) =
           (fillable (loaded_graph L) \<and> g = filled_graph (loaded_graph L))"
    using n0 assms loaded_graph_out_ok [OF True assms]
    by (intro fill_in_exact [where n = ?n]) (simp_all add: loaded_graph_simps)
  then show ?thesis
    using True by (simp add: ARGraph_impl_ctor_def load_out_exact)
qed

lemma bsearch_empty: "bsearch [] x 0 0 = Inr None"
  by (subst bsearch.simps) simp

lemma isolated_ctor:
  assumes "0 \<le> n" "n \<le> 65536"
  shows "ARGraph_impl_ctor (isolated_loader n) = Inr (isolated_graph n)"
proof -
  let ?L = "isolated_loader n"
  have ec: "edge_count ?L i = 0" and rep: "reported ?L i = []" for i
    by (simp_all add: edge_count_def reported_def isolated_loader_def)
  have nc: "loader_NodeCount ?L = n"
    by (simp add: isolated_loader_def)
  have ld: "loadable ?L"
    using assms by (simp add: loadable_def nc ec rep list_all_iff)
  have ec': "edge_count ?L = (\<lambda>i. 0)"
    by (rule ext) (rule ec)
  have at: "loader_GetNodeAttr ?L = (\<lambda>u. NULL)"
    by (simp add: isolated_loader_def)
  have lg: "loaded_graph ?L = isolated_graph n"
    by (simp add: loaded_graph_def isolated_graph_def Let_def nc ec' rep at map_replicate_const)
  have fe: "find_edge (isolated_graph n) u v = None" if "u < nat n" for u v
    using that by (simp add: find_edge_def isolated_graph_def bsearch_empty)
  have nn: "n_nodes (isolated_graph n) = n"
    and ic: "in_count (isolated_graph n) = replicate (nat n) 0"
    by (simp_all add: isolated_graph_def)
  have src: "sources (isolated_graph n) v = []" for v
    by (simp add: sources_def nn filter_empty_conv fe)
  have "fillable (isolated_graph n)"
    by (simp add: fillable_def src list_all_iff nn ic)
  moreover have "filled_graph (isolated_graph n) = isolated_graph n"
    unfolding filled_graph_def nn
    by (simp add: in_list_def [abs_def] in_attrs_def [abs_def] src map_replicate_const)
      (simp add: isolated_graph_def)
  ultimately show ?thesis
    using ctor_exact [of ?L "isolated_graph n"] assms ld by (simp add: nc lg)
qed

lemma ebind_InlD: "ebind m f = Inl e \<Longrightarrow> m = Inl e \<or> (\<exists>x. m = Inr x \<and> f x = Inl e)"
  by (cases m) simp_all

lemma for_each_Inl:
  "for_each body js s = Inl e \<Longrightarrow> \<exists>i s'. body i s' = Inl e"
  by (induction js arbitrary: s) (auto split: sum.splits)


lemma new_array_InlD: "new_array k x = Inl e \<Longrightarrow> e = UndefinedBehaviour"
  by (simp add: new_array_def split: if_splits)

lemma HasEdge_InlD:
  "HasEdge g u v p = Inl e \<Longrightarrow> e = UndefinedBehaviour \<or> e = BoundsViolation"
  unfolding HasEdge_def
  by (auto dest!: ebind_InlD rd_Inl rd2_Inl bsearch_Inl split: if_splits option.splits)

lemma GetEdgeAttr_InlD:
  "GetEdgeAttr g u v = Inl e \<Longrightarrow> e = UndefinedBehaviour \<or> e = BoundsViolation"
  unfolding GetEdgeAttr_def
  by (auto dest!: ebind_InlD HasEdge_InlD split: if_splits option.splits)

lemma load_edge_InlD: "load_edge L i j g = Inl e \<Longrightarrow> e = UndefinedBehaviour"
  unfolding load_edge_def
  by (auto dest!: ebind_InlD rd_Inl wr_Inl wr2_Inl split: prod.splits)

lemma load_node_InlD: "load_node L i g = Inl e \<Longrightarrow> e = UndefinedBehaviour"
  unfolding load_node_def Let_def
  by (auto dest!: ebind_InlD for_each_Inl wr_Inl new_array_InlD load_edge_InlD)

lemma fill_in_edge_InlD:
  "fill_in_edge i j s = Inl e \<Longrightarrow> e = UndefinedBehaviour \<or> e = BoundsViolation"
  unfolding fill_in_edge_def
  by (auto dest!: ebind_InlD HasEdge_InlD GetEdgeAttr_InlD wr2_Inl
      split: prod.splits if_splits)

lemma fill_in_node_InlD:
  "fill_in_node i g = Inl e
    \<Longrightarrow> e = UndefinedBehaviour \<or> e = BoundsViolation \<or> e = InconsistentGraph"
  unfolding fill_in_node_def Let_def
  by (auto dest!: ebind_InlD for_each_Inl rd_Inl wr_Inl new_array_InlD fill_in_edge_InlD
      split: prod.splits if_splits)

lemma ctor_InlD:
  "ARGraph_impl_ctor L = Inl e
    \<Longrightarrow> e = UndefinedBehaviour \<or> e = BoundsViolation \<or> e = InconsistentGraph"
  unfolding ARGraph_impl_ctor_def load_out_def alloc_graph_def Let_def
  by (auto dest!: ebind_InlD for_each_Inl new_array_InlD load_node_InlD fill_in_node_InlD)

subsection \<open>Loaders that report in ascending order\<close>

lemma bump_nth:
  "v < length cs \<Longrightarrow> bump cs w ! v = (if unat w = v then cs ! v + 1 else cs ! v)"
  by (auto simp: bump_def)

lemma foldl_bump_nth:
  "v < length cs \<Longrightarrow>
     foldl bump cs ws ! v = cs ! v + word_of_nat (length (filter (\<lambda>w. unat w = v) ws))"
  by (induction ws arbitrary: cs) (simp_all add: bump_nth)

lemma sint_count: "d \<le> 32767 \<Longrightarrow> sint (word_of_nat d :: count_type) = int d"
  by (simp add: signed_of_nat signed_take_bit_int_eq_self)

lemma in_count_loaded:
  "v < nat (loader_NodeCount L) \<Longrightarrow>
     in_count (loaded_graph L) ! v = word_of_nat (in_total L v)"
  by (simp add: loaded_graph_def Let_def foldl_bump_nth in_total_def)

lemma unat_eq_node: "v < 65536 \<Longrightarrow> (unat (w :: node_id) = v) = (w = word_of_nat v)"
  by (auto simp: unat_node word_unat_eq_iff)

lemma length_filter_distinct:
  assumes "distinct ws" "v < 65536"
  shows "length (filter (\<lambda>w. unat (w :: node_id) = v) ws) = (if word_of_nat v \<in> set ws then 1 else 0)"
proof -
  have "filter (\<lambda>w. unat w = v) ws = filter (\<lambda>w. w = word_of_nat v) ws"
    using assms(2) by (simp add: unat_eq_node)
  also have "\<dots> = (if word_of_nat v \<in> set ws then [word_of_nat v] else [])"
    using assms(1) by (induction ws) auto
  finally show ?thesis by simp
qed

lemma length_filter_concat:
  assumes "\<And>u. u \<in> set us \<Longrightarrow> distinct (f u)" "v < 65536"
  shows "length (filter (\<lambda>w. unat (w :: node_id) = v) (concat (map f us)))
       = length (filter (\<lambda>u. word_of_nat v \<in> set (f u)) us)"
  using assms(1)
  by (induction us) (simp_all add: length_filter_distinct [OF _ assms(2)])


lemma ascending_D:
  "ascending_reports L \<Longrightarrow> u < nat (loader_NodeCount L)
    \<Longrightarrow> sorted_wrt (<) (map fst (reported L u))"
  by (simp add: ascending_reports_def list_all_iff)

lemma in_range_D:
  assumes "in_range L"
  shows "loader_NodeCount L \<le> 65536"
    and "v < nat (loader_NodeCount L) \<Longrightarrow> in_total L v \<le> 32767"
  using assms by (simp_all add: in_range_def list_all_iff)

lemma length_reported_bound: "length (reported L u) < 2147483648"
  using sint_lt [of "edge_count L u"] by (simp add: length_reported)

lemma find_edge_loaded:
  assumes "u < nat (loader_NodeCount L)" "sorted_wrt (<) (map fst (reported L u))"
  shows "c < length (reported L u) \<Longrightarrow> fst (reported L u ! c) = word_of_nat v
           \<Longrightarrow> find_edge (loaded_graph L) u v = Some (int c)"
    and "word_of_nat v \<notin> fst ` set (reported L u) \<Longrightarrow> find_edge (loaded_graph L) u v = None"
proof -
  have len: "length (map fst (reported L u)) < 2147483648"
    using length_reported_bound [of L u] by simp
  show "find_edge (loaded_graph L) u v = Some (int c)"
    if "c < length (reported L u)" "fst (reported L u ! c) = word_of_nat v"
  proof -
    have "bsearch (map fst (reported L u)) (word_of_nat v) 0
        (int (length (map fst (reported L u)))) = Inr (Some (int c))"
      using that by (intro bsearch_find [OF assms(2) len]) simp_all
    then show ?thesis
      using assms(1) by (simp add: find_edge_def loaded_graph_simps)
  qed
  show "find_edge (loaded_graph L) u v = None"
    if "word_of_nat v \<notin> fst ` set (reported L u)"
  proof -
    have "bsearch (map fst (reported L u)) (word_of_nat v) 0
        (int (length (map fst (reported L u)))) = Inr None"
      using that by (intro bsearch_miss [OF assms(2) len]) simp
    then show ?thesis
      using assms(1) by (simp add: find_edge_def loaded_graph_simps)
  qed
qed

lemma find_edge_loaded_iff:
  assumes "u < nat (loader_NodeCount L)" "sorted_wrt (<) (map fst (reported L u))"
  shows "(find_edge (loaded_graph L) u v \<noteq> None) = (word_of_nat v \<in> fst ` set (reported L u))"
proof (cases "word_of_nat v \<in> fst ` set (reported L u)")
  case True
  then obtain c where "c < length (reported L u)" "fst (reported L u ! c) = word_of_nat v"
    by (auto simp: in_set_conv_nth)
  from find_edge_loaded(1) [OF assms this] True show ?thesis by simp
next
  case False
  from find_edge_loaded(2) [OF assms this] False show ?thesis by simp
qed

lemma sources_loaded:
  assumes "ascending_reports L"
  shows "sources (loaded_graph L) v =
     filter (\<lambda>u. word_of_nat v \<in> fst ` set (reported L u)) [0..<nat (loader_NodeCount L)]"
proof -
  have "(find_edge (loaded_graph L) u v \<noteq> None) = (word_of_nat v \<in> fst ` set (reported L u))"
    if "u \<in> set [0..<nat (loader_NodeCount L)]" for u
    using that by (intro find_edge_loaded_iff ascending_D [OF assms]) simp_all
  then show ?thesis
    unfolding sources_def loaded_graph_simps by (rule filter_cong [OF refl])
qed

lemma in_total_sources:
  assumes "ascending_reports L" "v < 65536"
  shows "in_total L v = length (sources (loaded_graph L) v)"
proof -
  have "distinct (map fst (reported L u))" if "u \<in> set [0..<nat (loader_NodeCount L)]" for u
    using ascending_D [OF assms(1), of u] that by (simp add: strict_sorted_iff)
  from length_filter_concat [of "[0..<nat (loader_NodeCount L)]" "\<lambda>i. map fst (reported L i)", OF this assms(2)]
  show ?thesis
    by (simp add: in_total_def sources_loaded [OF assms(1)])
qed

lemma ascending_fillable:
  assumes "in_range L" "ascending_reports L"
  shows "fillable (loaded_graph L)"
proof -
  have "sint (in_count (loaded_graph L) ! v) = int (length (sources (loaded_graph L) v))"
    if "v < nat (loader_NodeCount L)" for v
  proof -
    have v: "v < 65536" using that in_range_D(1) [OF assms(1)] by simp
    show ?thesis
      using in_range_D(2) [OF assms(1) that] in_total_sources [OF assms(2) v]
      by (simp add: in_count_loaded [OF that] sint_count)
  qed
  then show ?thesis
    by (simp add: fillable_def list_all_iff loaded_graph_simps)
qed

lemma ascending_ctor:
  assumes "loadable L" "in_range L" "ascending_reports L"
  shows "ARGraph_impl_ctor L = Inr (filled_graph (loaded_graph L))"
  using ctor_exact [OF in_range_D(1) [OF assms(2)], of "filled_graph (loaded_graph L)"]
    assms(1) ascending_fillable [OF assms(2,3)] by simp


lemma filled_graph_simps:
  "n_nodes (filled_graph g) = n_nodes g"
  "out (filled_graph g) = out g"
  "out_count (filled_graph g) = out_count g"
  "out_attr (filled_graph g) = out_attr g"
  "in_count (filled_graph g) = in_count g"
  "attr (filled_graph g) = attr g"
  "length (inn (filled_graph g)) = nat (n_nodes g)"
  "length (in_attr (filled_graph g)) = nat (n_nodes g)"
  "v < nat (n_nodes g) \<Longrightarrow> inn (filled_graph g) ! v = in_list g v"
  "v < nat (n_nodes g) \<Longrightarrow> in_attr (filled_graph g) ! v = in_attrs g v"
  by (simp_all add: filled_graph_def)

lemma same_out_filled: "same_out (filled_graph g) g"
  by (simp add: same_out_def filled_graph_simps)

lemma sources_bound: "u \<in> set (sources g v) \<Longrightarrow> u < nat (n_nodes g)"
  by (simp add: sources_def)

lemma sorted_sources: "sorted_wrt (<) (sources g v)"
  by (simp add: sources_def sorted_wrt_filter)

lemma node_less: "a < b \<Longrightarrow> b < 65536 \<Longrightarrow> (word_of_nat a :: node_id) < word_of_nat b"
  by (simp add: word_less_nat_alt unat_node)

lemma sorted_in_list:
  assumes "n_nodes g \<le> 65536"
  shows "sorted_wrt (<) (in_list g v)"
proof -
  have "sorted_wrt (\<lambda>a b. (word_of_nat a :: node_id) < word_of_nat b) (sources g v)"
  proof (rule sorted_wrt_mono_rel [OF _ sorted_sources])
    fix a b
    assume "b \<in> set (sources g v)" "a < b"
    then show "(word_of_nat a :: node_id) < word_of_nat b"
      using sources_bound [of b g v] assms by (intro node_less) auto
  qed
  then show ?thesis
    by (simp add: in_list_def sorted_wrt_map)
qed

lemma map_of_node_keys:
  "(\<And>s. s \<in> set S \<Longrightarrow> s < 65536) \<Longrightarrow> u < 65536 \<Longrightarrow>
     map_of (zip (map word_of_nat S) (map f S)) (word_of_nat u :: node_id)
       = (if u \<in> set S then Some (f u) else None)"
proof (induction S)
  case Nil
  then show ?case by simp
next
  case (Cons s S)
  have "((word_of_nat s :: node_id) = word_of_nat u) = (s = u)"
    using Cons.prems unat_node [of s] unat_node [of u] by (metis list.set_intros(1))
  then show ?case
    using Cons by auto
qed

lemma in_entry_filled:
  assumes "n_nodes g \<le> 65536" "u < nat (n_nodes g)" "v < nat (n_nodes g)"
  shows "in_entry (filled_graph g) (word_of_nat v) (word_of_nat u) =
     (if find_edge g u v \<noteq> None then Some (found_attr g v u) else None)"
proof -
  have v: "unat (word_of_nat v :: node_id) = v"
    using assms by (intro unat_node) simp
  have "in_entry (filled_graph g) (word_of_nat v) (word_of_nat u) =
      map_of (zip (map word_of_nat (sources g v)) (map (found_attr g v) (sources g v)))
        (word_of_nat u :: node_id)"
    using assms(3) by (simp add: in_entry_def v filled_graph_simps in_list_def in_attrs_def)
  also have "\<dots> = (if u \<in> set (sources g v) then Some (found_attr g v u) else None)"
    using assms sources_bound [of _ g v] by (intro map_of_node_keys) force+
  finally show ?thesis
    using assms(2) by (simp add: sources_def)
qed


lemma alias_loaded:
  assumes "in_range L" "ascending_reports L"
    and "u < nat (loader_NodeCount L)" "v < nat (loader_NodeCount L)"
  shows "edge_entry (filled_graph (loaded_graph L)) (word_of_nat u) (word_of_nat v)
       = in_entry (filled_graph (loaded_graph L)) (word_of_nat v) (word_of_nat u)"
proof -
  let ?g = "loaded_graph L"
  let ?R = "reported L u"
  note srt = ascending_D [OF assms(2,3)]
  have n: "n_nodes ?g \<le> 65536" "u < nat (n_nodes ?g)" "v < nat (n_nodes ?g)"
    using assms in_range_D(1) by (simp_all add: loaded_graph_simps)
  have u: "unat (word_of_nat u :: node_id) = u"
    using n by (intro unat_node) (simp add: loaded_graph_simps)
  have ee: "edge_entry (filled_graph ?g) (word_of_nat u) (word_of_nat v) = map_of ?R (word_of_nat v)"
    using assms(3) by (simp add: edge_entry_def u filled_graph_simps loaded_graph_simps zip_map_fst_snd)
  note ie = in_entry_filled [OF n]
  show ?thesis
  proof (cases "word_of_nat v \<in> fst ` set ?R")
    case False
    from find_edge_loaded(2) [OF assms(3) srt this] False show ?thesis
      by (simp add: ee ie map_of_eq_None_iff)
  next
    case True
    then obtain c where c: "c < length ?R" "fst (?R ! c) = word_of_nat v"
      by (auto simp: in_set_conv_nth)
    have fe: "find_edge ?g u v = Some (int c)"
      by (rule find_edge_loaded(1) [OF assms(3) srt c])
    have "distinct (map fst ?R)"
      using srt by (simp add: strict_sorted_iff)
    moreover have "(word_of_nat v, snd (?R ! c)) \<in> set ?R"
      using c by (metis nth_mem prod.collapse)
    ultimately have "map_of ?R (word_of_nat v) = Some (snd (?R ! c))"
      by (rule map_of_is_SomeI)
    then show ?thesis
      using c(1) assms(3) by (simp add: ee ie fe found_attr_def loaded_graph_simps)
  qed
qed

lemma ascending_arg_inv:
  assumes "loadable L" "in_range L" "ascending_reports L"
  shows "arg_inv (filled_graph (loaded_graph L))"
proof -
  let ?g = "loaded_graph L"
  let ?G = "filled_graph ?g"
  let ?n = "nat (loader_NodeCount L)"
  have n0: "0 \<le> loader_NodeCount L"
    using assms(1) by (simp add: loadable_def)
  note n16 = in_range_D(1) [OF assms(2)]
  have nn: "n_nodes ?g = loader_NodeCount L"
    by (simp add: loaded_graph_simps)
  have "node_inv ?G u" if u: "u < ?n" for u
  proof -
    have uu: "unat (word_of_nat u :: node_id) = u"
      using u n16 by (intro unat_node) simp
    have 1: "out_ok ?G (word_of_nat u)"
      using loaded_graph_out_ok [OF assms(1) n16 u] out_ok_same_out [OF same_out_filled] by simp
    have "sint (in_count ?g ! u) = int (length (sources ?g u))"
      using ascending_fillable [OF assms(2,3)] u
      by (simp add: fillable_def list_all_iff loaded_graph_simps)
    then have 2: "in_ok ?G (word_of_nat u)"
      using u by (simp add: in_ok_def uu filled_graph_simps nn loaded_graph_simps
          in_list_def in_attrs_def)
    have 3: "sorted_wrt (<) (out ?G ! u)"
      using ascending_D [OF assms(3) u] u by (simp add: filled_graph_simps loaded_graph_simps)
    have 4: "sorted_wrt (<) (inn ?G ! u)"
      using u n16 by (simp add: filled_graph_simps nn sorted_in_list)
    have 5: "list_all (\<lambda>v. unat v < nat (n_nodes ?G)) (out ?G ! u)"
      using loadable_D(2) [OF assms(1) u] u
      by (auto simp: filled_graph_simps loaded_graph_simps list_all_iff)
    have 6: "list_all (\<lambda>v. unat v < nat (n_nodes ?G)) (inn ?G ! u)"
    proof -
      have "unat (word_of_nat s :: node_id) < ?n" if "s \<in> set (sources ?g u)" for s
        using sources_bound [OF that] n16 by (simp add: nn unat_node)
      then show ?thesis
        using u by (simp add: filled_graph_simps nn in_list_def list_all_iff)
    qed
    have 7: "list_all (\<lambda>v. edge_entry ?G (word_of_nat u) (word_of_nat v)
                     = in_entry ?G (word_of_nat v) (word_of_nat u)) [0..<nat (n_nodes ?G)]"
      using alias_loaded [OF assms(2,3) u] by (simp add: list_all_iff filled_graph_simps nn)
    from 1 2 3 4 5 6 7 show ?thesis
      by (simp add: node_inv_def)
  qed
  then show ?thesis
    using n0 n16 by (simp add: arg_inv_def filled_graph_simps nn list_all_iff)
qed

subsection \<open>What the constructor builds\<close>

lemma sint_short: "0 \<le> c \<Longrightarrow> c \<le> 32767 \<Longrightarrow> sint (word_of_int c :: count_type) = c"
  by (simp add: signed_of_int signed_take_bit_int_eq_self)

lemma node_of_unat: "word_of_nat (unat u) = (u :: node_id)"
  by simp

lemma unat_less_node: "uint (u :: node_id) < k \<Longrightarrow> unat u < nat k"
proof -
  assume "uint u < k"
  then have "int (unat u) < k" by (simp only: uint_nat)
  then show ?thesis by linarith
qed

lemma ascending_loader_D:
  assumes "ascending_loader L"
  shows "loadable L" "in_range L" "ascending_reports L"
    and "uint u < loader_NodeCount L \<Longrightarrow>
           sint (edge_count L (unat u)) = loader_OutEdgeCount L u"
    and "uint u < loader_NodeCount L \<Longrightarrow>
           reported L (unat u) =
             map (\<lambda>j. loader_GetOutEdge L u (int j)) [0..<nat (loader_OutEdgeCount L u)]"
proof -
  show "in_range L" "ascending_reports L"
    using assms by (simp_all add: ascending_loader_def)
  have c: "0 \<le> loader_OutEdgeCount L (word_of_nat i) \<and> loader_OutEdgeCount L (word_of_nat i) \<le> 32767"
    if "i < nat (loader_NodeCount L)" for i
    using assms that by (simp add: ascending_loader_def list_all_iff)
  then have s: "sint (edge_count L i) = loader_OutEdgeCount L (word_of_nat i)"
    if "i < nat (loader_NodeCount L)" for i
    using that by (simp add: edge_count_def sint_short)
  show "loadable L"
    using assms c s by (simp add: ascending_loader_def loadable_def list_all_iff)
  show e: "sint (edge_count L (unat u)) = loader_OutEdgeCount L u"
    if "uint u < loader_NodeCount L"
    using s [OF unat_less_node [OF that]] by simp
  show "reported L (unat u) =
      map (\<lambda>j. loader_GetOutEdge L u (int j)) [0..<nat (loader_OutEdgeCount L u)]"
    if "uint u < loader_NodeCount L"
    using e [OF that] by (simp add: reported_def)
qed

lemma arg_inv_D:
  assumes "arg_inv g" "uint u < n_nodes g"
  shows "node_inv g (unat u)" "out_ok g u" "in_ok g u"
    "sorted_wrt (<) (out g ! unat u)" "sorted_wrt (<) (inn g ! unat u)"
proof -
  show n: "node_inv g (unat u)"
    using assms unat_less_node [OF assms(2)] by (simp add: arg_inv_def list_all_iff)
  then show "out_ok g u" "in_ok g u"
    "sorted_wrt (<) (out g ! unat u)" "sorted_wrt (<) (inn g ! unat u)"
    by (simp_all add: node_inv_def)
qed

lemma arg_inv_alias:
  assumes "arg_inv g" "uint u < n_nodes g" "uint v < n_nodes g"
  shows "edge_entry g u v = in_entry g v u"
proof -
  have "list_all (\<lambda>w. edge_entry g (word_of_nat (unat u)) (word_of_nat w)
                     = in_entry g (word_of_nat w) (word_of_nat (unat u))) [0..<nat (n_nodes g)]"
    using arg_inv_D(1) [OF assms(1,2)] by (simp only: node_inv_def)
  then have "\<forall>w \<in> set [0..<nat (n_nodes g)].
      edge_entry g (word_of_nat (unat u)) (word_of_nat w)
        = in_entry g (word_of_nat w) (word_of_nat (unat u))"
    by (simp only: list_all_iff)
  moreover have "unat v \<in> set [0..<nat (n_nodes g)]"
    using unat_less_node [OF assms(3)] by simp
  ultimately have "edge_entry g (word_of_nat (unat u)) (word_of_nat (unat v))
      = in_entry g (word_of_nat (unat v)) (word_of_nat (unat u))"
    by (rule bspec)
  then show ?thesis by (simp only: node_of_unat)
qed

text \<open>
  C1, amended. The constructor does not sort: it stores every out-list in the order
  in which the loader reports it. When the loader reports every node's out-edges in
  strictly ascending order of neighbour id (at most 65536 nodes, every count and
  in-degree at most 32767, every neighbour a node), the construction completes, each
  out-array is the loader's sequence, and every out-array and every in-array is
  strictly ascending.
\<close>

theorem ctor_keeps_loader_order:
  assumes "ascending_loader L"
  shows "\<exists>g. ARGraph_impl_ctor L = Inr g \<and>
           (\<forall>u. uint u < loader_NodeCount L \<longrightarrow>
              out g ! unat u =
                map (\<lambda>j. fst (loader_GetOutEdge L u (int j))) [0..<nat (loader_OutEdgeCount L u)]
              \<and> sorted_wrt (<) (out g ! unat u)
              \<and> sorted_wrt (<) (inn g ! unat u))"
proof (intro exI conjI allI impI)
  let ?G = "filled_graph (loaded_graph L)"
  note a = ascending_loader_D [OF assms]
  show "ARGraph_impl_ctor L = Inr ?G"
    by (rule ascending_ctor [OF a(1-3)])
  have inv: "arg_inv ?G"
    by (rule ascending_arg_inv [OF a(1-3)])
  fix u :: node_id
  assume u: "uint u < loader_NodeCount L"
  then have n: "uint u < n_nodes ?G"
    by (simp add: filled_graph_simps loaded_graph_simps)
  show "out ?G ! unat u =
      map (\<lambda>j. fst (loader_GetOutEdge L u (int j))) [0..<nat (loader_OutEdgeCount L u)]"
    using unat_less_node [OF u] a(5) [OF u]
    by (simp add: filled_graph_simps loaded_graph_simps comp_def)
  show "sorted_wrt (<) (out ?G ! unat u)" "sorted_wrt (<) (inn ?G ! unat u)"
    by (rule arg_inv_D [OF inv n])+
qed

theorem ctor_keeps_loader_order_witness:
  "ascending_loader sorted_loader
   \<and> map_sum id out (ARGraph_impl_ctor sorted_loader) = Inr [[1, 2], [2], [0]]
   \<and> map_sum id inn (ARGraph_impl_ctor sorted_loader) = Inr [[2], [0], [0, 1]]"
proof -
  have h: "ascending_loader sorted_loader"
    by code_simp
  from ctor_keeps_loader_order [OF h]
  obtain g where g: "ARGraph_impl_ctor sorted_loader = Inr g" by blast
  have "map_sum id out (ARGraph_impl_ctor sorted_loader) = Inr [[1, 2], [2], [0]]"
    "map_sum id inn (ARGraph_impl_ctor sorted_loader) = Inr [[2], [0], [0, 1]]"
    by code_simp+
  with h g show ?thesis by simp
qed

theorem ctor_does_not_sort_counterexample:
  "ARGraph_impl_ctor unsorted_loader = Inl InconsistentGraph
   \<and> map_sum id out (load_out unsorted_loader) = Inr [[2, 1], [2], [0]]
   \<and> \<not> sorted_wrt (<) [2, 1 :: node_id]"
proof -
  have "case ARGraph_impl_ctor unsorted_loader of
          Inl e \<Rightarrow> e = InconsistentGraph | Inr g \<Rightarrow> False"
    by code_simp
  then have "ARGraph_impl_ctor unsorted_loader = Inl InconsistentGraph"
    by (simp split: sum.splits)
  moreover have "map_sum id out (load_out unsorted_loader) = Inr [[2, 1], [2], [0]]"
    by code_simp
  ultimately show ?thesis by simp
qed

text \<open>
  C2, amended. Round trip for a loader that reports in ascending order (with the
  bounds of \<open>ascending_loader\<close>): the graph is built, \<open>NodeCount\<close> is the loader's
  node count, and for all nodes \<open>u\<close>, \<open>v\<close> of the graph \<open>OutEdgeCount(u)\<close> is the
  loader's count for \<open>u\<close> and \<open>HasEdge(u, v)\<close> is true exactly when the loader reported
  \<open>v\<close> as an out-edge of \<open>u\<close> at some index.
\<close>

theorem loader_round_trip:
  assumes "ascending_loader L"
  shows "\<exists>g. ARGraph_impl_ctor L = Inr g \<and> NodeCount g = loader_NodeCount L \<and>
           (\<forall>u v. uint u < loader_NodeCount L \<longrightarrow> uint v < loader_NodeCount L \<longrightarrow>
              OutEdgeCount g u = Inr (loader_OutEdgeCount L u)
              \<and> HasEdge g u v False =
                  Inr (\<exists>j. 0 \<le> j \<and> j < loader_OutEdgeCount L u
                           \<and> fst (loader_GetOutEdge L u j) = v, None))"
proof (intro exI conjI allI impI)
  let ?G = "filled_graph (loaded_graph L)"
  note a = ascending_loader_D [OF assms]
  show "ARGraph_impl_ctor L = Inr ?G"
    by (rule ascending_ctor [OF a(1-3)])
  show "NodeCount ?G = loader_NodeCount L"
    by (simp add: NodeCount_def filled_graph_simps loaded_graph_simps)
  have inv: "arg_inv ?G"
    by (rule ascending_arg_inv [OF a(1-3)])
  fix u v :: node_id
  assume u: "uint u < loader_NodeCount L" and v: "uint v < loader_NodeCount L"
  then have n: "uint u < n_nodes ?G" "uint v < n_nodes ?G"
    by (simp_all add: filled_graph_simps loaded_graph_simps)
  note ok = arg_inv_D(2) [OF inv n(1)] and srt = arg_inv_D(4) [OF inv n(1)]
  have cnt: "sint (out_count ?G ! unat u) = loader_OutEdgeCount L u"
    using unat_less_node [OF u] a(4) [OF u] by (simp add: filled_graph_simps loaded_graph_simps)
  show "OutEdgeCount ?G u = Inr (loader_OutEdgeCount L u)"
    using n(1) ok cnt by (simp add: OutEdgeCount_def out_ok_def rd_unat)
  have outs: "out ?G ! unat u =
      map (\<lambda>j. fst (loader_GetOutEdge L u (int j))) [0..<nat (loader_OutEdgeCount L u)]"
    using unat_less_node [OF u] a(5) [OF u]
    by (simp add: filled_graph_simps loaded_graph_simps comp_def)
  have mem: "(v \<in> set (out ?G ! unat u)) =
      (\<exists>j. 0 \<le> j \<and> j < loader_OutEdgeCount L u \<and> fst (loader_GetOutEdge L u j) = v)"
  proof
    assume "v \<in> set (out ?G ! unat u)"
    then obtain j where "j < nat (loader_OutEdgeCount L u)" "fst (loader_GetOutEdge L u (int j)) = v"
      by (auto simp: outs)
    then show "\<exists>j. 0 \<le> j \<and> j < loader_OutEdgeCount L u \<and> fst (loader_GetOutEdge L u j) = v"
      by (intro exI [of _ "int j"]) auto
  next
    assume "\<exists>j. 0 \<le> j \<and> j < loader_OutEdgeCount L u \<and> fst (loader_GetOutEdge L u j) = v"
    then obtain j where j: "0 \<le> j" "j < loader_OutEdgeCount L u" "fst (loader_GetOutEdge L u j) = v"
      by blast
    then have "nat j < nat (loader_OutEdgeCount L u)" "fst (loader_GetOutEdge L u (int (nat j))) = v"
      by simp_all
    then show "v \<in> set (out ?G ! unat u)"
      unfolding outs by (metis (no_types, lifting) atLeast0LessThan image_eqI lessThan_iff
          list.set_map set_upt)
  qed
  show "HasEdge ?G u v False =
      Inr (\<exists>j. 0 \<le> j \<and> j < loader_OutEdgeCount L u \<and> fst (loader_GetOutEdge L u j) = v, None)"
  proof (cases "v \<in> set (out ?G ! unat u)")
    case True
    then obtain c where c: "c < length (out ?G ! unat u)" "out ?G ! unat u ! c = v"
      by (auto simp: in_set_conv_nth)
    from HasEdge_hit(1) [OF n ok srt c, of False] True mem show ?thesis by simp
  next
    case False
    from HasEdge_miss(1) [OF n ok srt False, of False] False mem show ?thesis by simp
  qed
qed

theorem loader_round_trip_witness:
  "ascending_loader sorted_loader
   \<and> map_sum id NodeCount (ARGraph_impl_ctor sorted_loader) = Inr 3
   \<and> loader_NodeCount sorted_loader = 3
   \<and> map_sum id (\<lambda>g. (OutEdgeCount g 0, HasEdge g 0 2 False, HasEdge g 1 0 False))
        (ARGraph_impl_ctor sorted_loader) = Inr (Inr 2, Inr (True, None), Inr (False, None))
   \<and> loader_OutEdgeCount sorted_loader 0 = 2
   \<and> fst (loader_GetOutEdge sorted_loader 0 1) = 2"
proof -
  have h: "ascending_loader sorted_loader"
    by code_simp
  from loader_round_trip [OF h]
  obtain g where g: "ARGraph_impl_ctor sorted_loader = Inr g" by blast
  have "map_sum id NodeCount (ARGraph_impl_ctor sorted_loader) = Inr 3"
    "loader_NodeCount sorted_loader = 3"
    "map_sum id (\<lambda>g. (OutEdgeCount g 0, HasEdge g 0 2 False, HasEdge g 1 0 False))
        (ARGraph_impl_ctor sorted_loader) = Inr (Inr 2, Inr (True, None), Inr (False, None))"
    "loader_OutEdgeCount sorted_loader 0 = 2"
    "fst (loader_GetOutEdge sorted_loader 0 1) = 2"
    by code_simp+
  with h g show ?thesis by simp
qed

theorem loader_round_trip_counterexample:
  "fst (loader_GetOutEdge unsorted_loader 0 0) = 2
   \<and> map_sum id (\<lambda>g. HasEdge g 0 2 False) (load_out unsorted_loader) = Inr (Inr (False, None))
   \<and> (case ARGraph_impl_ctor unsorted_loader of Inl e \<Rightarrow> e = InconsistentGraph | Inr g \<Rightarrow> False)"
  by code_simp

text \<open>
  C6, amended. The constructor makes no check of the node count. A loader of
  65534 isolated nodes is accepted, and so is a loader of 65535 or 65536 isolated
  nodes; no loader at all is rejected with \<open>LoaderOverflow\<close>.
\<close>

theorem ctor_has_no_node_count_check:
  "(0 \<le> n \<and> n \<le> 65536 \<longrightarrow>
      ARGraph_impl_ctor (isolated_loader n) = Inr (isolated_graph n)
      \<and> NodeCount (isolated_graph n) = n)
   \<and> ARGraph_impl_ctor L \<noteq> Inl LoaderOverflow"
  using isolated_ctor [of n] ctor_InlD [of L LoaderOverflow]
  by (auto simp: NodeCount_def isolated_graph_def)

theorem ctor_has_no_node_count_check_witness:
  "ARGraph_impl_ctor (isolated_loader 65534) = Inr (isolated_graph 65534)
   \<and> NodeCount (isolated_graph 65534) = 65534"
  using ctor_has_no_node_count_check [of 65534] by simp

theorem LoaderOverflow_counterexample:
  "ARGraph_impl_ctor (isolated_loader 65535) = Inr (isolated_graph 65535)
   \<and> loader_NodeCount (isolated_loader 65535) = 65535"
  using isolated_ctor [of 65535] by (simp add: isolated_loader_def)

subsection \<open>The aliasing invariant\<close>

lemma map_of_zip_update:
  "distinct ks \<Longrightarrow> length ks = length vs \<Longrightarrow> c < length ks
    \<Longrightarrow> map_of (zip ks (vs[c := a])) = (map_of (zip ks vs))(ks ! c \<mapsto> a)"
proof (induction ks arbitrary: vs c)
  case Nil
  then show ?case by simp
next
  case (Cons k ks)
  then obtain w ws where vs: "vs = w # ws" by (cases vs) auto
  show ?case
  proof (cases c)
    case 0
    then show ?thesis by (simp add: vs fun_eq_iff)
  next
    case (Suc c')
    have "k \<noteq> ks ! c'" using Cons.prems Suc by auto
    then show ?thesis
      using Cons.IH [of ws c'] Cons.prems Suc by (auto simp: vs fun_upd_twist)
  qed
qed

lemma SetEdgeAttr_in_found:
  assumes "in_ok g v" "sorted_wrt (<) (inn g ! unat v)"
    and "l < length (inn g ! unat v)" "inn g ! unat v ! l = u"
  shows "SetEdgeAttr_in g u v a evs =
     (None, g\<lparr>in_attr := (in_attr g)[unat v := (in_attr g ! unat v)[l := a]]\<rparr>, evs)"
proof -
  have len: "length (inn g ! unat v) < 2147483648"
    using assms(1) short_length by (auto simp: in_ok_def)
  have b: "bsearch (inn g ! unat v) u 0 (int (length (inn g ! unat v))) = Inr (Some (int l))"
    using assms(3,4) by (intro bsearch_find [OF assms(2) len]) auto
  have w: "wr2 (in_attr g) (uint v) (int l) a =
      Inr ((in_attr g)[unat v := (in_attr g ! unat v)[nat (int l) := a]])"
    using assms(1,3) by (intro wr2_unat) (auto simp: in_ok_def)
  show ?thesis
    using assms(1) b w by (simp add: SetEdgeAttr_in_def in_ok_def rd_unat)
qed


lemma edge_entry_update:
  assumes "out_ok g u" "sorted_wrt (<) (out g ! unat u)"
    and "c < length (out g ! unat u)" "out g ! unat u ! c = v"
  shows "edge_entry (g\<lparr>out_attr := (out_attr g)[unat u := (out_attr g ! unat u)[c := a]],
                       in_attr := ia\<rparr>) x y =
     (if x = u \<and> y = v then Some a else edge_entry g x y)"
proof (cases "x = u")
  case False
  then have "unat x \<noteq> unat u" by (simp add: word_unat_eq_iff)
  then show ?thesis
    using False by (simp add: edge_entry_def)
next
  case True
  have "distinct (out g ! unat u)"
    using assms(2) by (simp add: strict_sorted_iff)
  from map_of_zip_update [OF this, of "out_attr g ! unat u" c a] assms(1,3,4)
  show ?thesis
    using True by (simp add: edge_entry_def out_ok_def)
qed

lemma in_entry_update:
  assumes "in_ok g v" "sorted_wrt (<) (inn g ! unat v)"
    and "l < length (inn g ! unat v)" "inn g ! unat v ! l = u"
  shows "in_entry (g\<lparr>out_attr := oa,
                       in_attr := (in_attr g)[unat v := (in_attr g ! unat v)[l := a]]\<rparr>) y x =
     (if y = v \<and> x = u then Some a else in_entry g y x)"
proof (cases "y = v")
  case False
  then have "unat y \<noteq> unat v" by (simp add: word_unat_eq_iff)
  then show ?thesis
    using False by (simp add: in_entry_def)
next
  case True
  have "distinct (inn g ! unat v)"
    using assms(2) by (simp add: strict_sorted_iff)
  from map_of_zip_update [OF this, of "in_attr g ! unat v" l a] assms(1,3,4)
  show ?thesis
    using True by (simp add: in_entry_def in_ok_def)
qed

lemma in_entry_SomeD:
  assumes "in_entry g v u = Some x"
  shows "\<exists>l < length (inn g ! unat v). inn g ! unat v ! l = u"
proof -
  from assms have "(u, x) \<in> set (zip (inn g ! unat v) (in_attr g ! unat v))"
    unfolding in_entry_def by (rule map_of_SomeD)
  then have "u \<in> set (inn g ! unat v)"
    by (rule set_zip_leftD)
  then show ?thesis
    by (simp only: in_set_conv_nth)
qed

lemma in_ok_out_attr_update:
  "in_ok (g\<lparr>out_attr := oa\<rparr>) v = in_ok g v"
  by (simp add: in_ok_def)

text \<open>What \<open>SetEdgeAttr\<close> does to a graph that satisfies the invariants.\<close>

lemma SetEdgeAttr_present:
  assumes "arg_inv g" "uint u < n_nodes g" "uint v < n_nodes g"
    and "c < length (out g ! unat u)" "out g ! unat u ! c = v"
  shows "\<exists>l < length (inn g ! unat v). inn g ! unat v ! l = u \<and>
     SetEdgeAttr g u v a d =
       (None,
        g\<lparr>out_attr := (out_attr g)[unat u := (out_attr g ! unat u)[c := a]],
          in_attr := (in_attr g)[unat v := (in_attr g ! unat v)[l := a]]\<rparr>,
        if d then DestroyEdge g (out_attr g ! unat u ! c) else [])"
proof -
  note ok = arg_inv_D(2) [OF assms(1,2)] and srt = arg_inv_D(4) [OF assms(1,2)]
  note iok = arg_inv_D(3) [OF assms(1,3)] and isrt = arg_inv_D(5) [OF assms(1,3)]
  have "edge_entry g u v = Some (out_attr g ! unat u ! c)"
    by (rule HasEdge_hit(2) [OF assms(2,3) ok srt assms(4,5)])
  then have "in_entry g v u = Some (out_attr g ! unat u ! c)"
    by (simp only: arg_inv_alias [OF assms(1-3)])
  from in_entry_SomeD [OF this]
  obtain l where l: "l < length (inn g ! unat v)" "inn g ! unat v ! l = u"
    by blast
  have len: "length (out g ! unat u) < 2147483648"
    using ok short_length by (auto simp: out_ok_def)
  have b: "bsearch (out g ! unat u) v 0 (int (length (out g ! unat u))) = Inr (Some (int c))"
    using assms(4,5) by (intro bsearch_find [OF srt len]) auto
  define g1 where "g1 = g\<lparr>out_attr := (out_attr g)[unat u := (out_attr g ! unat u)[c := a]]\<rparr>"
  have g1: "inn g1 = inn g" "in_attr g1 = in_attr g" "in_ok g1 v"
    using iok by (simp_all add: g1_def in_ok_out_attr_update)
  have f: "SetEdgeAttr_in g1 u v a evs =
     (None, g1\<lparr>in_attr := (in_attr g1)[unat v := (in_attr g1 ! unat v)[l := a]]\<rparr>, evs)" for evs
    by (rule SetEdgeAttr_in_found [OF g1(3)]) (simp_all only: g1(1) isrt l)
  have s: "SetEdgeAttr g u v a d =
      SetEdgeAttr_in g1 u v a (if d then DestroyEdge g (out_attr g ! unat u ! c) else [])"
    using SetEdgeAttr_search [OF assms(2,3) ok b, of a d] by (simp add: g1_def)
  have "SetEdgeAttr g u v a d =
       (None,
        g\<lparr>out_attr := (out_attr g)[unat u := (out_attr g ! unat u)[c := a]],
          in_attr := (in_attr g)[unat v := (in_attr g ! unat v)[l := a]]\<rparr>,
        if d then DestroyEdge g (out_attr g ! unat u ! c) else [])"
    unfolding s f by (simp add: g1_def)
  with l show ?thesis by blast
qed

lemma out_ok_update:
  "out_ok g w \<Longrightarrow>
     out_ok (g\<lparr>out_attr := (out_attr g)[i := (out_attr g ! i)[c := a]], in_attr := ia\<rparr>) w"
  by (cases "i = unat w") (simp_all add: out_ok_def)

lemma in_ok_update:
  "in_ok g w \<Longrightarrow>
     in_ok (g\<lparr>out_attr := oa, in_attr := (in_attr g)[i := (in_attr g ! i)[l := a]]\<rparr>) w"
  by (cases "i = unat w") (simp_all add: in_ok_def)

lemma arg_inv_update:
  assumes "arg_inv g" "uint u < n_nodes g" "uint v < n_nodes g"
    and "c < length (out g ! unat u)" "out g ! unat u ! c = v"
    and "l < length (inn g ! unat v)" "inn g ! unat v ! l = u"
  shows "arg_inv (g\<lparr>out_attr := (out_attr g)[unat u := (out_attr g ! unat u)[c := a]],
                    in_attr := (in_attr g)[unat v := (in_attr g ! unat v)[l := a]]\<rparr>)"
proof -
  let ?g = "g\<lparr>out_attr := (out_attr g)[unat u := (out_attr g ! unat u)[c := a]],
              in_attr := (in_attr g)[unat v := (in_attr g ! unat v)[l := a]]\<rparr>"
  note ok = arg_inv_D(2) [OF assms(1,2)] and srt = arg_inv_D(4) [OF assms(1,2)]
  note iok = arg_inv_D(3) [OF assms(1,3)] and isrt = arg_inv_D(5) [OF assms(1,3)]
  note ee = edge_entry_update [OF ok srt assms(4,5)]
  note ie = in_entry_update [OF iok isrt assms(6,7)]
  have "node_inv ?g w" if w: "w < nat (n_nodes g)" for w
  proof -
    have nw: "node_inv g w"
      using assms(1) w by (simp add: arg_inv_def list_all_iff)
    then have "out_ok ?g (word_of_nat w)" "in_ok ?g (word_of_nat w)"
      by (simp_all add: node_inv_def out_ok_update in_ok_update)
    moreover have "list_all (\<lambda>x. edge_entry ?g (word_of_nat w) (word_of_nat x)
                     = in_entry ?g (word_of_nat x) (word_of_nat w)) [0..<nat (n_nodes ?g)]"
      using nw by (auto simp: node_inv_def list_all_iff ee ie)
    ultimately show ?thesis
      using nw by (simp add: node_inv_def)
  qed
  then show ?thesis
    using assms(1) by (simp add: arg_inv_def list_all_iff)
qed

lemma SetEdgeAttr_absent:
  assumes "arg_inv g" "uint u < n_nodes g" "uint v < n_nodes g"
    and "v \<notin> set (out g ! unat u)"
  shows "SetEdgeAttr g u v a d = (Some UnknownEdge, g, [])"
proof -
  note ok = arg_inv_D(2) [OF assms(1,2)] and srt = arg_inv_D(4) [OF assms(1,2)]
  have len: "length (out g ! unat u) < 2147483648"
    using ok short_length by (auto simp: out_ok_def)
  from SetEdgeAttr_search [OF assms(2,3) ok bsearch_miss [OF srt len assms(4)]]
  show ?thesis by simp
qed

lemma SetEdgeAttr_preserves:
  assumes "arg_inv g" "uint u < n_nodes g" "uint v < n_nodes g"
  shows "arg_inv (fst (snd (SetEdgeAttr g u v a d)))"
proof (cases "v \<in> set (out g ! unat u)")
  case False
  from SetEdgeAttr_absent [OF assms False] assms(1) show ?thesis by simp
next
  case True
  then obtain c where c: "c < length (out g ! unat u)" "out g ! unat u ! c = v"
    by (auto simp: in_set_conv_nth)
  from SetEdgeAttr_present [OF assms c, of a d]
  obtain l where l: "l < length (inn g ! unat v)" "inn g ! unat v ! l = u"
    and s: "SetEdgeAttr g u v a d =
       (None,
        g\<lparr>out_attr := (out_attr g)[unat u := (out_attr g ! unat u)[c := a]],
          in_attr := (in_attr g)[unat v := (in_attr g ! unat v)[l := a]]\<rparr>,
        if d then DestroyEdge g (out_attr g ! unat u ! c) else [])"
    by blast
  from arg_inv_update [OF assms c l, of a] show ?thesis
    by (simp add: s)
qed

lemma SetEdgeAttr_then_lookup:
  assumes "arg_inv g" "uint u < n_nodes g" "uint v < n_nodes g"
    and "v \<in> set (out g ! unat u)"
  shows "fst (SetEdgeAttr g u v a d) = None"
    and "HasEdge (fst (snd (SetEdgeAttr g u v a d))) u v True = Inr (True, Some a)"
    and "edge_entry (fst (snd (SetEdgeAttr g u v a d))) u v = Some a"
    and "in_entry (fst (snd (SetEdgeAttr g u v a d))) v u = Some a"
    and "\<exists>l. GetInEdge (fst (snd (SetEdgeAttr g u v a d))) v l = Inr (u, a)"
proof -
  from assms(4) obtain c where c: "c < length (out g ! unat u)" "out g ! unat u ! c = v"
    by (auto simp: in_set_conv_nth)
  from SetEdgeAttr_present [OF assms(1-3) c, of a d]
  obtain l where l: "l < length (inn g ! unat v)" "inn g ! unat v ! l = u"
    and s: "SetEdgeAttr g u v a d =
       (None,
        g\<lparr>out_attr := (out_attr g)[unat u := (out_attr g ! unat u)[c := a]],
          in_attr := (in_attr g)[unat v := (in_attr g ! unat v)[l := a]]\<rparr>,
        if d then DestroyEdge g (out_attr g ! unat u ! c) else [])"
    by blast
  let ?g = "g\<lparr>out_attr := (out_attr g)[unat u := (out_attr g ! unat u)[c := a]],
              in_attr := (in_attr g)[unat v := (in_attr g ! unat v)[l := a]]\<rparr>"
  have g': "fst (snd (SetEdgeAttr g u v a d)) = ?g"
    by (simp add: s)
  note inv = arg_inv_update [OF assms(1-3) c l, of a]
  have n: "uint u < n_nodes ?g" "uint v < n_nodes ?g"
    using assms(2,3) by simp_all
  note ok = arg_inv_D(2) [OF assms(1,2)] and srt = arg_inv_D(4) [OF assms(1,2)]
  note iok = arg_inv_D(3) [OF assms(1,3)] and isrt = arg_inv_D(5) [OF assms(1,3)]
  show "fst (SetEdgeAttr g u v a d) = None"
    by (simp add: s)
  have e: "edge_entry ?g u v = Some a"
    using edge_entry_update [OF ok srt c, where a = a and x = u and y = v] by simp
  then show "edge_entry (fst (snd (SetEdgeAttr g u v a d))) u v = Some a"
    by (simp only: g')
  have "HasEdge ?g u v True = Inr (True, Some a)"
    using HasEdge_entry [OF n arg_inv_D(2) [OF inv n(1)] arg_inv_D(4) [OF inv n(1)], of True] e
    by simp
  then show "HasEdge (fst (snd (SetEdgeAttr g u v a d))) u v True = Inr (True, Some a)"
    by (simp only: g')
  have "in_entry ?g v u = Some a"
    using in_entry_update [OF iok isrt l, where a = a and y = v and x = u] by simp
  then show "in_entry (fst (snd (SetEdgeAttr g u v a d))) v u = Some a"
    by (simp only: g')
  have "GetInEdge ?g v (int l) = Inr (u, a)"
    using n(2) iok l
    by (simp add: GetInEdge_def in_ok_def rd_unat rd2_unat)
  then show "\<exists>l. GetInEdge (fst (snd (SetEdgeAttr g u v a d))) v l = Inr (u, a)"
    unfolding g' by blast
qed

subsection \<open>Constructions that complete\<close>

lemma bsearch_found_sorted:
  assumes "distinct ids" "length ids < 2147483648"
  shows "0 \<le> a \<Longrightarrow> b \<le> int (length ids)
    \<Longrightarrow> (\<And>i. a \<le> i \<Longrightarrow> i < b \<Longrightarrow> \<exists>k. bsearch ids (ids ! nat i) a b = Inr (Some k))
    \<Longrightarrow> a \<le> i \<Longrightarrow> i < j \<Longrightarrow> j < b \<Longrightarrow> ids ! nat i < ids ! nat j"
proof (induction "nat (b - a)" arbitrary: a b i j rule: less_induct)
  case less
  have ab: "a < b" using less.prems by simp
  let ?c = "mid a b"
  have b31: "b < 2147483648" using less.prems(2) assms(2) by simp
  note m = mid_between [OF less.prems(1) ab b31]
  note step = bsearch_step [OF less.prems(1) ab less.prems(2) assms(2)]
  have idx: "ids ! nat p = ids ! nat q \<Longrightarrow> p = q"
    if "a \<le> p" "p < b" "a \<le> q" "q < b" for p q
  proof -
    assume e: "ids ! nat p = ids ! nat q"
    have "nat p < length ids" "nat q < length ids"
      using that less.prems(1,2) by auto
    with e assms(1) have "nat p = nat q"
      by (simp add: nth_eq_iff_index_eq)
    then show "p = q" using that less.prems(1) by simp
  qed
  have L: "ids ! nat p < ids ! nat ?c \<and> (\<exists>k. bsearch ids (ids ! nat p) a ?c = Inr (Some k))"
    if p: "a \<le> p" "p < ?c" for p
  proof -
    have pb: "p < b" using p m by simp
    obtain k where k: "bsearch ids (ids ! nat p) a b = Inr (Some k)"
      using less.prems(3) [OF p(1) pb] by blast
    have ne: "ids ! nat ?c \<noteq> ids ! nat p"
      using idx [of ?c p] p m pb by auto
    have nlt: "\<not> ids ! nat ?c < ids ! nat p"
    proof
      assume lt: "ids ! nat ?c < ids ! nat p"
      then have "bsearch ids (ids ! nat p) (?c + 1) b = Inr (Some k)"
        using step [of "ids ! nat p"] k by simp
      from bsearch_hit [OF this] have "?c + 1 \<le> k" "k < b" "ids ! nat k = ids ! nat p"
        by auto
      with idx [of k p] p m pb show False by auto
    qed
    then have gt: "ids ! nat p < ids ! nat ?c" using ne by auto
    then have "bsearch ids (ids ! nat p) a ?c = Inr (Some k)"
      using step [of "ids ! nat p"] k nlt by simp
    with gt show ?thesis by blast
  qed
  have R: "ids ! nat ?c < ids ! nat p \<and> (\<exists>k. bsearch ids (ids ! nat p) (?c + 1) b = Inr (Some k))"
    if p: "?c < p" "p < b" for p
  proof -
    have pa: "a \<le> p" using p m by simp
    obtain k where k: "bsearch ids (ids ! nat p) a b = Inr (Some k)"
      using less.prems(3) [OF pa p(2)] by blast
    have ne: "ids ! nat ?c \<noteq> ids ! nat p"
      using idx [of ?c p] p m pa by auto
    have lt: "ids ! nat ?c < ids ! nat p"
    proof (rule ccontr)
      assume nlt: "\<not> ids ! nat ?c < ids ! nat p"
      then have gt: "ids ! nat p < ids ! nat ?c" using ne by auto
      then have "bsearch ids (ids ! nat p) a ?c = Inr (Some k)"
        using step [of "ids ! nat p"] k nlt by simp
      from bsearch_hit [OF this] have "a \<le> k" "k < ?c" "ids ! nat k = ids ! nat p"
        by auto
      with idx [of k p] p m pa show False by auto
    qed
    then have "bsearch ids (ids ! nat p) (?c + 1) b = Inr (Some k)"
      using step [of "ids ! nat p"] k by simp
    with lt show ?thesis by blast
  qed
  consider "j < ?c" | "j = ?c" | "i < ?c" "?c < j" | "i = ?c" | "?c < i"
    using less.prems(5) by linarith
  then show ?case
  proof cases
    case 1
    have "nat (?c - a) < nat (b - a)" using m ab by simp
    moreover have "?c \<le> int (length ids)" using m less.prems(2) by simp
    ultimately show ?thesis
      using less.hyps [of ?c a i j] less.prems(1,4,5) L 1 by blast
  next
    case 2
    then show ?thesis using L [of i] less.prems(4,5) by simp
  next
    case 3
    have "ids ! nat i < ids ! nat ?c" using L [of i] less.prems(4) 3 by simp
    moreover have "ids ! nat ?c < ids ! nat j" using R [of j] less.prems(6) 3 by simp
    ultimately show ?thesis by simp
  next
    case 4
    then show ?thesis using R [of j] less.prems(5,6) by simp
  next
    case 5
    have "nat (b - (?c + 1)) < nat (b - a)" using m ab by simp
    moreover have "0 \<le> ?c + 1" "?c + 1 \<le> i" using m less.prems(1) 5 by simp_all
    ultimately show ?thesis
      using less.hyps [of b "?c + 1" i j] less.prems(2,5,6) R by simp
  qed
qed

lemma all_found_sorted:
  assumes "distinct ids" "length ids < 2147483648"
    and "\<And>x. x \<in> set ids \<Longrightarrow> \<exists>k. bsearch ids x 0 (int (length ids)) = Inr (Some k)"
  shows "sorted_wrt (<) ids"
proof -
  have "ids ! p < ids ! q" if "p < q" "q < length ids" for p q
  proof -
    have "ids ! nat (int p) < ids ! nat (int q)"
    proof (rule bsearch_found_sorted [OF assms(1,2), of 0 "int (length ids)"])
      fix i :: int
      assume "0 \<le> i" "i < int (length ids)"
      then have "ids ! nat i \<in> set ids" by simp
      then show "\<exists>k. bsearch ids (ids ! nat i) 0 (int (length ids)) = Inr (Some k)"
        by (rule assms(3))
    qed (use that in simp_all)
    then show ?thesis by simp
  qed
  then show ?thesis
    by (simp add: sorted_wrt_iff_nth_less)
qed


lemma sum_list_pointwise_eq:
  "(\<And>x. x \<in> set xs \<Longrightarrow> f x \<le> (g x :: nat)) \<Longrightarrow> sum_list (map f xs) = sum_list (map g xs)
    \<Longrightarrow> x \<in> set xs \<Longrightarrow> f x = g x"
proof (induction xs)
  case Nil
  then show ?case by simp
next
  case (Cons y ys)
  have le: "sum_list (map f ys) \<le> sum_list (map g ys)"
    using Cons.prems(1) by (intro sum_list_mono) simp
  have fy: "f y \<le> g y" using Cons.prems(1) by simp
  from Cons.prems(2) le fy have "f y = g y" "sum_list (map f ys) = sum_list (map g ys)"
    by simp_all
  then show ?case
    using Cons.IH Cons.prems(1,3) by auto
qed

lemma length_filter_concat_sum:
  "length (filter P (concat (map f us))) = sum_list (map (\<lambda>u. length (filter P (f u))) us)"
  by (induction us) simp_all

lemma length_filter_sum:
  "length (filter Q us) = sum_list (map (\<lambda>u. if Q u then 1 else 0) us)"
  by (induction us) simp_all

lemma nonempty_length: "xs \<noteq> [] \<Longrightarrow> 1 \<le> length xs"
  by (cases xs) simp_all

lemma count_le_1_distinct:
  "(\<And>w. w \<in> set ws \<Longrightarrow> length (filter (\<lambda>x. x = w) ws) \<le> 1) \<Longrightarrow> distinct ws"
proof (induction ws)
  case Nil
  then show ?case by simp
next
  case (Cons a ws)
  have "length (filter (\<lambda>x. x = a) (a # ws)) \<le> 1"
    using Cons.prems [of a] by simp
  then have "filter (\<lambda>x. x = a) ws = []" by simp
  then have a: "a \<notin> set ws"
    by (auto simp: filter_empty_conv)
  have "length (filter (\<lambda>x. x = w) ws) \<le> 1" if "w \<in> set ws" for w
  proof -
    have "length (filter (\<lambda>x. x = w) ws) \<le> length (filter (\<lambda>x. x = w) (a # ws))"
      by simp
    also have "\<dots> \<le> 1" using Cons.prems [of w] that by simp
    finally show ?thesis .
  qed
  then have "distinct ws" by (rule Cons.IH)
  with a show ?case by simp
qed

text \<open>A loader whose construction completes reported every out-list ascending.\<close>

lemma completed_ascending:
  assumes "in_range L" "ARGraph_impl_ctor L = Inr g"
  shows "loadable L" "ascending_reports L" "g = filled_graph (loaded_graph L)"
proof -
  note n16 = in_range_D(1) [OF assms(1)]
  from ctor_exact [OF n16, of g] assms(2)
  have ld: "loadable L" and fl: "fillable (loaded_graph L)"
    and geq: "g = filled_graph (loaded_graph L)"
    by simp_all
  show "loadable L" "g = filled_graph (loaded_graph L)"
    by (rule ld, rule geq)
  let ?g = "loaded_graph L"
  let ?n = "nat (loader_NodeCount L)"
  let ?t = "\<lambda>u. map fst (reported L u)"
  let ?cnt = "\<lambda>v u. length (filter (\<lambda>w. unat w = v) (?t u))"
  let ?hit = "\<lambda>v u. if find_edge ?g u v \<noteq> None then 1 else (0 :: nat)"
  have hit_cnt: "?hit v u \<le> ?cnt v u" if u: "u < ?n" and v: "v < ?n" for u v
  proof (cases "find_edge ?g u v")
    case None
    then show ?thesis by simp
  next
    case (Some c)
    then have "bsearch (?t u) (word_of_nat v) 0 (int (length (?t u))) = Inr (Some c)"
      using u by (simp add: find_edge_def loaded_graph_simps split: sum.splits)
    from bsearch_hit [OF this] have "(word_of_nat v :: node_id) \<in> set (?t u)"
      by (metis nat_less_iff nth_mem)
    moreover have "unat (word_of_nat v :: node_id) = v"
      using v n16 by (intro unat_node) simp
    ultimately have "\<exists>w \<in> set (?t u). unat w = v"
      by blast
    then have "filter (\<lambda>w. unat w = v) (?t u) \<noteq> []"
      by (simp only: filter_empty_conv) blast
    then have "1 \<le> ?cnt v u"
      by (rule nonempty_length)
    then show ?thesis by simp
  qed
  have sums: "sum_list (map (?hit v) [0..<?n]) = sum_list (map (?cnt v) [0..<?n])" if v: "v < ?n" for v
  proof -
    have "sint (in_count ?g ! v) = int (length (sources ?g v))"
      using fl v by (simp add: fillable_def list_all_iff loaded_graph_simps)
    then have t: "in_total L v = length (sources ?g v)"
      using in_range_D(2) [OF assms(1) v] by (simp add: in_count_loaded [OF v] sint_count)
    have "in_total L v = length (filter (\<lambda>w. unat w = v) (concat (map ?t [0..<?n])))"
      by (simp only: in_total_def)
    also have "\<dots> = sum_list (map (?cnt v) [0..<?n])"
      by (rule length_filter_concat_sum)
    finally have c: "in_total L v = sum_list (map (?cnt v) [0..<?n])" .
    have "length (sources ?g v) = length (filter (\<lambda>u. find_edge ?g u v \<noteq> None) [0..<?n])"
      by (simp add: sources_def loaded_graph_simps)
    also have "\<dots> = sum_list (map (?hit v) [0..<?n])"
      by (rule length_filter_sum)
    finally have h: "length (sources ?g v) = sum_list (map (?hit v) [0..<?n])" .
    show ?thesis
      using t c h by (simp only:)
  qed
  have eq: "?hit v u = ?cnt v u" if u: "u < ?n" and v: "v < ?n" for u v
    using sum_list_pointwise_eq [of "[0..<?n]" "?hit v" "?cnt v" u] hit_cnt sums [OF v] u v
    by simp
  have "sorted_wrt (<) (?t u)" if u: "u < ?n" for u
  proof (rule all_found_sorted)
    have tv: "unat w < ?n" if "w \<in> set (?t u)" for w
      using loadable_D(2) [OF ld u] that by auto
    have one: "?cnt (unat w) u = 1 \<and> find_edge ?g u (unat w) \<noteq> None" if w: "w \<in> set (?t u)" for w
    proof -
      have "\<exists>x \<in> set (?t u). unat x = unat w"
        using w by blast
      then have "filter (\<lambda>x. unat x = unat w) (?t u) \<noteq> []"
        by (simp only: filter_empty_conv) blast
      then have "1 \<le> ?cnt (unat w) u"
        by (rule nonempty_length)
      then show ?thesis
        using eq [OF u tv [OF w]] by (auto split: if_splits)
    qed
    show "distinct (?t u)"
    proof (rule count_le_1_distinct)
      fix w assume "w \<in> set (?t u)"
      from one [OF this] show "length (filter (\<lambda>x. x = w) (?t u)) \<le> 1"
        by (simp add: word_unat_eq_iff)
    qed
    show "length (?t u) < 2147483648"
      using length_reported_bound [of L u] by simp
    fix x assume x: "x \<in> set (?t u)"
    from one [OF x] obtain c where "find_edge ?g u (unat x) = Some c" by auto
    then have "bsearch (?t u) x 0 (int (length (?t u))) = Inr (Some c)"
      using u by (simp add: find_edge_def loaded_graph_simps split: sum.splits)
    then show "\<exists>k. bsearch (?t u) x 0 (int (length (?t u))) = Inr (Some k)" by blast
  qed
  then show "ascending_reports L"
    by (simp add: ascending_reports_def list_all_iff)
qed

lemma completed_arg_inv:
  assumes "in_range L" "ARGraph_impl_ctor L = Inr g"
  shows "arg_inv g"
  using completed_ascending [OF assms] ascending_arg_inv [OF _ assms(1)] by simp

subsection \<open>A construction that completes on a wrapped count\<close>

lemma bsearch_absent:
  assumes "length ids < 2147483648" "x \<notin> set ids"
  shows "bsearch ids x 0 (int (length ids)) = Inr None"
proof -
  obtain r where r: "bsearch ids x 0 (int (length ids)) = Inr r"
    using bsearch_total [OF assms(1), of 0 "int (length ids)" x] by auto
  have "r = None"
  proof (cases r)
    case (Some c)
    from bsearch_hit [OF r [unfolded Some]] assms(2) show ?thesis
      by (metis nat_less_iff nth_mem)
  qed simp
  with r show ?thesis by simp
qed

lemma bsearch_replicate:
  assumes "0 < k" "k < 2147483648"
  shows "\<exists>c. bsearch (replicate k x) x 0 (int k) = Inr (Some c)"
proof -
  have m: "mid 0 (int k) < int k" "0 \<le> mid 0 (int k)"
    using mid_between [of 0 "int k"] assms by simp_all
  then have "replicate k x ! nat (mid 0 (int k)) = x"
    by (intro nth_replicate) linarith
  then show ?thesis
    using bsearch_step [of 0 "int k" "replicate k x" x] assms by simp
qed

lemma four_cases: "i < 4 \<Longrightarrow> i = 0 \<or> i = 1 \<or> i = 2 \<or> i = (3 :: nat)"
  by linarith

lemma upt_4: "[0..<4] = [0, 1, 2, 3 :: nat]"
  by (simp add: upt_rec)

lemma dup_edge_count:
  assumes "0 \<le> k1" "k1 \<le> 32767" "0 \<le> k2" "k2 \<le> 32767" "0 \<le> k3" "k3 \<le> 32767"
  shows "sint (edge_count (dup_loader k1 k2 k3) 0) = 2"
    "sint (edge_count (dup_loader k1 k2 k3) (Suc 0)) = k1"
    "sint (edge_count (dup_loader k1 k2 k3) 2) = k2"
    "sint (edge_count (dup_loader k1 k2 k3) 3) = k3"
  using assms by (simp_all add: edge_count_def dup_loader_def sint_short)

lemma dup_reported:
  assumes "0 \<le> k1" "k1 \<le> 32767" "0 \<le> k2" "k2 \<le> 32767" "0 \<le> k3" "k3 \<le> 32767"
  shows "reported (dup_loader k1 k2 k3) 0 = [(2, 12), (1, 11)]"
    "reported (dup_loader k1 k2 k3) (Suc 0) = replicate (nat k1) (2, 20)"
    "reported (dup_loader k1 k2 k3) 2 = replicate (nat k2) (2, 20)"
    "reported (dup_loader k1 k2 k3) 3 = replicate (nat k3) (2, 20)"
proof -
  have "[0..<nat 2] = [0, 1]" by (simp add: upt_rec)
  then show "reported (dup_loader k1 k2 k3) 0 = [(2, 12), (1, 11)]"
    unfolding reported_def dup_edge_count(1) [OF assms] by (simp add: dup_loader_def)
  show "reported (dup_loader k1 k2 k3) (Suc 0) = replicate (nat k1) (2, 20)"
    unfolding reported_def dup_edge_count(2) [OF assms]
    by (simp add: dup_loader_def map_replicate_const)
  show "reported (dup_loader k1 k2 k3) 2 = replicate (nat k2) (2, 20)"
    unfolding reported_def dup_edge_count(3) [OF assms]
    by (simp add: dup_loader_def map_replicate_const)
  show "reported (dup_loader k1 k2 k3) 3 = replicate (nat k3) (2, 20)"
    unfolding reported_def dup_edge_count(4) [OF assms]
    by (simp add: dup_loader_def map_replicate_const)
qed

lemma dup_NodeCount: "loader_NodeCount (dup_loader k1 k2 k3) = 4"
  by (simp add: dup_loader_def)

lemma dup_loadable:
  assumes "0 \<le> k1" "k1 \<le> 32767" "0 \<le> k2" "k2 \<le> 32767" "0 \<le> k3" "k3 \<le> 32767"
  shows "loadable (dup_loader k1 k2 k3)"
  unfolding loadable_def dup_NodeCount
  using assms by (simp add: upt_4 dup_reported [OF assms] dup_edge_count [OF assms] list_all_iff)

lemma dup_in_total:
  assumes "0 \<le> k1" "k1 \<le> 32767" "0 \<le> k2" "k2 \<le> 32767" "0 \<le> k3" "k3 \<le> 32767"
  shows "in_total (dup_loader k1 k2 k3) 0 = 0"
    "in_total (dup_loader k1 k2 k3) (Suc 0) = 1"
    "in_total (dup_loader k1 k2 k3) 2 = 1 + nat k1 + nat k2 + nat k3"
    "in_total (dup_loader k1 k2 k3) 3 = 0"
  unfolding in_total_def dup_NodeCount
  by (simp_all add: upt_4 dup_reported [OF assms] filter_replicate)

lemma bsearch_21:
  "bsearch [2, 1] (0 :: node_id) 0 2 = Inr None"
  "bsearch [2, 1] (1 :: node_id) 0 2 = Inr (Some 1)"
  "bsearch [2, 1] (2 :: node_id) 0 2 = Inr None"
  "bsearch [2, 1] (3 :: node_id) 0 2 = Inr None"
  by code_simp+

lemma dup_find_edge:
  assumes "1 \<le> k1" "k1 \<le> 32767" "1 \<le> k2" "k2 \<le> 32767" "1 \<le> k3" "k3 \<le> 32767"
    and "v < 4"
  shows "(find_edge (loaded_graph (dup_loader k1 k2 k3)) 0 v \<noteq> None) = (v = 1)"
    "(find_edge (loaded_graph (dup_loader k1 k2 k3)) (Suc 0) v \<noteq> None) = (v = 2)"
    "(find_edge (loaded_graph (dup_loader k1 k2 k3)) 2 v \<noteq> None) = (v = 2)"
    "(find_edge (loaded_graph (dup_loader k1 k2 k3)) 3 v \<noteq> None) = (v = 2)"
proof -
  have a: "0 \<le> k1" "k1 \<le> 32767" "0 \<le> k2" "k2 \<le> 32767" "0 \<le> k3" "k3 \<le> 32767"
    using assms by simp_all
  note r = dup_reported [OF a]
  have o: "out (loaded_graph (dup_loader k1 k2 k3)) ! 0 = [2, 1]"
    "out (loaded_graph (dup_loader k1 k2 k3)) ! Suc 0 = replicate (nat k1) 2"
    "out (loaded_graph (dup_loader k1 k2 k3)) ! 2 = replicate (nat k2) 2"
    "out (loaded_graph (dup_loader k1 k2 k3)) ! 3 = replicate (nat k3) 2"
    by (simp_all add: loaded_graph_simps dup_NodeCount r)
  have rep: "(case bsearch (replicate (nat k) 2) (word_of_nat v :: node_id) 0 (int (nat k)) of
               Inl e \<Rightarrow> None | Inr r \<Rightarrow> r) \<noteq> None \<longleftrightarrow> v = 2"
    if k: "1 \<le> k" "k \<le> 32767" for k
  proof (cases "v = 2")
    case True
    have "\<exists>c. bsearch (replicate (nat k) (2 :: node_id)) 2 0 (int (nat k)) = Inr (Some c)"
      using k by (intro bsearch_replicate) simp_all
    then show ?thesis using True by auto
  next
    case False
    then have "(word_of_nat v :: node_id) \<noteq> 2"
      using four_cases [OF assms(7)] by auto
    then have "(word_of_nat v :: node_id) \<notin> set (replicate (nat k) 2)"
      by simp
    from bsearch_absent [OF _ this] k
    have "bsearch (replicate (nat k) 2) (word_of_nat v :: node_id) 0 (int (nat k)) = Inr None"
      by simp
    then show ?thesis using False by simp
  qed
  show "(find_edge (loaded_graph (dup_loader k1 k2 k3)) 0 v \<noteq> None) = (v = 1)"
    using four_cases [OF assms(7)] by (auto simp: find_edge_def o bsearch_21)
  show "(find_edge (loaded_graph (dup_loader k1 k2 k3)) (Suc 0) v \<noteq> None) = (v = 2)"
    using rep [OF assms(1,2)] by (simp add: find_edge_def o)
  show "(find_edge (loaded_graph (dup_loader k1 k2 k3)) 2 v \<noteq> None) = (v = 2)"
    using rep [OF assms(3,4)] by (simp add: find_edge_def o)
  show "(find_edge (loaded_graph (dup_loader k1 k2 k3)) 3 v \<noteq> None) = (v = 2)"
    using rep [OF assms(5,6)] by (simp add: find_edge_def o)
qed

lemma dup_sources:
  assumes "1 \<le> k1" "k1 \<le> 32767" "1 \<le> k2" "k2 \<le> 32767" "1 \<le> k3" "k3 \<le> 32767"
  shows "sources (loaded_graph (dup_loader k1 k2 k3)) 0 = []"
    "sources (loaded_graph (dup_loader k1 k2 k3)) (Suc 0) = [0]"
    "sources (loaded_graph (dup_loader k1 k2 k3)) 2 = [1, 2, 3]"
    "sources (loaded_graph (dup_loader k1 k2 k3)) 3 = []"
  unfolding sources_def loaded_graph_simps dup_NodeCount
  by (simp_all add: upt_4 dup_find_edge [OF assms] del: not_None_eq)

lemma wrap_loadable: "loadable wrap_loader"
  unfolding wrap_loader_def by (rule dup_loadable) simp_all

lemma wrap_in_total:
  "in_total wrap_loader 0 = 0" "in_total wrap_loader (Suc 0) = 1"
  "in_total wrap_loader 2 = 65539" "in_total wrap_loader 3 = 0"
  unfolding wrap_loader_def by (simp_all add: dup_in_total)

lemma wrap_sources:
  "sources (loaded_graph wrap_loader) 0 = []"
  "sources (loaded_graph wrap_loader) (Suc 0) = [0]"
  "sources (loaded_graph wrap_loader) 2 = [1, 2, 3]"
  "sources (loaded_graph wrap_loader) 3 = []"
  unfolding wrap_loader_def by (rule dup_sources; simp)+

lemma wrap_NodeCount: "loader_NodeCount wrap_loader = 4"
  by (simp add: wrap_loader_def dup_NodeCount)

lemma wrap_in_count:
  "in_count (loaded_graph wrap_loader) ! 0 = 0"
  "in_count (loaded_graph wrap_loader) ! Suc 0 = 1"
  "in_count (loaded_graph wrap_loader) ! 2 = 3"
  "in_count (loaded_graph wrap_loader) ! 3 = 0"
  by (simp_all add: in_count_loaded wrap_NodeCount wrap_in_total)

lemma wrap_fillable: "fillable (loaded_graph wrap_loader)"
  unfolding fillable_def loaded_graph_simps wrap_NodeCount
  by (simp add: upt_4 wrap_in_count wrap_sources)

lemma wrap_ctor:
  "ARGraph_impl_ctor wrap_loader = Inr (filled_graph (loaded_graph wrap_loader))"
  using ctor_exact [of wrap_loader "filled_graph (loaded_graph wrap_loader)"]
    wrap_loadable wrap_fillable
  by (simp add: wrap_NodeCount)

lemma wrap_not_in_range: "\<not> in_range wrap_loader"
proof
  assume "in_range wrap_loader"
  from in_range_D(2) [OF this, of 2] show False
    by (simp add: wrap_NodeCount wrap_in_total)
qed

lemma wrap_graph:
  "n_nodes (filled_graph (loaded_graph wrap_loader)) = 4"
  "out (filled_graph (loaded_graph wrap_loader)) ! 0 = [2, 1]"
  "out_attr (filled_graph (loaded_graph wrap_loader)) ! 0 = [12, 11]"
  "in_count (filled_graph (loaded_graph wrap_loader)) ! 2 = 3"
  "inn (filled_graph (loaded_graph wrap_loader)) ! 2 = [1, 2, 3]"
  "edge_entry (filled_graph (loaded_graph wrap_loader)) 0 2 = Some 12"
  "in_entry (filled_graph (loaded_graph wrap_loader)) 2 0 = None"
proof -
  have r: "reported wrap_loader 0 = [(2, 12), (1, 11)]"
    unfolding wrap_loader_def by (rule dup_reported) simp_all
  show n: "n_nodes (filled_graph (loaded_graph wrap_loader)) = 4"
    by (simp add: filled_graph_simps loaded_graph_simps wrap_NodeCount)
  show o: "out (filled_graph (loaded_graph wrap_loader)) ! 0 = [2, 1]"
    "out_attr (filled_graph (loaded_graph wrap_loader)) ! 0 = [12, 11]"
    by (simp_all add: filled_graph_simps loaded_graph_simps wrap_NodeCount r)
  show "in_count (filled_graph (loaded_graph wrap_loader)) ! 2 = 3"
    by (simp add: filled_graph_simps wrap_in_count)
  show i: "inn (filled_graph (loaded_graph wrap_loader)) ! 2 = [1, 2, 3]"
    by (simp add: filled_graph_simps loaded_graph_simps wrap_NodeCount in_list_def wrap_sources)
  show "edge_entry (filled_graph (loaded_graph wrap_loader)) 0 2 = Some 12"
    by (simp add: edge_entry_def o)
  have "length (in_attr (filled_graph (loaded_graph wrap_loader)) ! 2) = 3"
    by (simp add: filled_graph_simps loaded_graph_simps wrap_NodeCount in_attrs_def wrap_sources)
  then obtain a b c where "in_attr (filled_graph (loaded_graph wrap_loader)) ! 2 = [a, b, c]"
    by (auto simp: length_Suc_conv numeral_3_eq_3)
  then show "in_entry (filled_graph (loaded_graph wrap_loader)) 2 0 = None"
    by (simp add: in_entry_def i)
qed

lemma wrap_lookup:
  "HasEdge (filled_graph (loaded_graph wrap_loader)) 0 2 True = Inr (False, None)"
  "SetEdgeAttr (filled_graph (loaded_graph wrap_loader)) 0 2 77 True =
     (Some UnknownEdge, filled_graph (loaded_graph wrap_loader), [])"
proof -
  let ?g = "filled_graph (loaded_graph wrap_loader)"
  have "out_ok (loaded_graph wrap_loader) (word_of_nat 0)"
    by (rule loaded_graph_out_ok [OF wrap_loadable]) (simp_all add: wrap_NodeCount)
  then have ok: "out_ok ?g 0"
    by (simp add: out_ok_same_out [OF same_out_filled])
  have n: "uint (0 :: node_id) < n_nodes ?g" "uint (2 :: node_id) < n_nodes ?g"
    by (simp_all add: wrap_graph(1))
  have b: "bsearch (out ?g ! unat (0 :: node_id)) 2 0 (int (length (out ?g ! unat (0 :: node_id))))
      = Inr None"
    by (simp add: wrap_graph(2) bsearch_21)
  from HasEdge_search [OF n ok b, of True]
  show "HasEdge ?g 0 2 True = Inr (False, None)" by simp
  from SetEdgeAttr_search [OF n ok b, of 77 True]
  show "SetEdgeAttr ?g 0 2 77 True = (Some UnknownEdge, ?g, [])" by simp
qed

text \<open>
  C4, amended. Aliasing invariant. For every recorded edge \<open>(u, v)\<close> the attribute
  handle of the out-entry of \<open>u\<close> for \<open>v\<close> is the handle of the in-entry of \<open>v\<close> for
  \<open>u\<close> (\<open>edge_entry g u v = in_entry g v u\<close>, part of \<open>arg_inv\<close>). It holds for the
  graph of every construction that completes from a loader with at most 65536 nodes
  and at most 32767 reported edges into any node (\<open>in_range\<close>: each node has its own
  \<^verbatim>\<open>node_id\<close>, and no \<^verbatim>\<open>in_count\<close> leaves the positive range of \<^verbatim>\<open>short\<close>).
  \<open>SetEdgeAttr\<close> preserves it, and after \<open>SetEdgeAttr(u, v, a)\<close> on a recorded edge
  both \<open>HasEdge(u, v, &p)\<close> and the in-list of \<open>v\<close> yield \<open>a\<close>.
\<close>

theorem aliasing_invariant:
  "(in_range L \<and> ARGraph_impl_ctor L = Inr g \<longrightarrow> arg_inv g)
   \<and> (arg_inv g \<and> uint u < n_nodes g \<and> uint v < n_nodes g \<longrightarrow>
        edge_entry g u v = in_entry g v u
        \<and> arg_inv (fst (snd (SetEdgeAttr g u v a d))))
   \<and> (arg_inv g \<and> uint u < n_nodes g \<and> uint v < n_nodes g \<and> v \<in> set (out g ! unat u) \<longrightarrow>
        fst (SetEdgeAttr g u v a d) = None
        \<and> HasEdge (fst (snd (SetEdgeAttr g u v a d))) u v True = Inr (True, Some a)
        \<and> edge_entry (fst (snd (SetEdgeAttr g u v a d))) u v = Some a
        \<and> in_entry (fst (snd (SetEdgeAttr g u v a d))) v u = Some a
        \<and> (\<exists>l. GetInEdge (fst (snd (SetEdgeAttr g u v a d))) v l = Inr (u, a)))"
proof (intro conjI impI)
  show "arg_inv g" if "in_range L \<and> ARGraph_impl_ctor L = Inr g"
    using that completed_arg_inv by blast
next
  assume h: "arg_inv g \<and> uint u < n_nodes g \<and> uint v < n_nodes g"
  then show "edge_entry g u v = in_entry g v u"
    using arg_inv_alias by blast
  from h show "arg_inv (fst (snd (SetEdgeAttr g u v a d)))"
    using SetEdgeAttr_preserves by blast
next
  assume "arg_inv g \<and> uint u < n_nodes g \<and> uint v < n_nodes g \<and> v \<in> set (out g ! unat u)"
  then have h: "arg_inv g" "uint u < n_nodes g" "uint v < n_nodes g" "v \<in> set (out g ! unat u)"
    by simp_all
  show "fst (SetEdgeAttr g u v a d) = None"
    "HasEdge (fst (snd (SetEdgeAttr g u v a d))) u v True = Inr (True, Some a)"
    "edge_entry (fst (snd (SetEdgeAttr g u v a d))) u v = Some a"
    "in_entry (fst (snd (SetEdgeAttr g u v a d))) v u = Some a"
    "\<exists>l. GetInEdge (fst (snd (SetEdgeAttr g u v a d))) v l = Inr (u, a)"
    by (rule SetEdgeAttr_then_lookup [OF h])+
qed

theorem aliasing_invariant_witness:
  "in_range sorted_loader
   \<and> ARGraph_impl_ctor sorted_loader = Inr (filled_graph (loaded_graph sorted_loader))
   \<and> arg_inv (filled_graph (loaded_graph sorted_loader))
   \<and> out_attr (filled_graph (loaded_graph sorted_loader)) = [[11, 12], [22], [30]]
   \<and> in_attr (filled_graph (loaded_graph sorted_loader)) = [[30], [11], [12, 22]]
   \<and> arg_inv tri_graph
   \<and> 2 \<in> set (out tri_graph ! unat (0 :: node_id))
   \<and> edge_entry tri_graph 0 2 = Some 12 \<and> in_entry tri_graph 2 0 = Some 12
   \<and> fst (SetEdgeAttr tri_graph 0 2 77 True) = None
   \<and> arg_inv (fst (snd (SetEdgeAttr tri_graph 0 2 77 True)))
   \<and> HasEdge (fst (snd (SetEdgeAttr tri_graph 0 2 77 True))) 0 2 True = Inr (True, Some 77)
   \<and> in_entry (fst (snd (SetEdgeAttr tri_graph 0 2 77 True))) 2 0 = Some 77
   \<and> GetInEdge (fst (snd (SetEdgeAttr tri_graph 0 2 77 True))) 2 0 = Inr (0, 77)"
proof -
  have r: "in_range sorted_loader" and l: "loadable sorted_loader"
    and s: "ascending_reports sorted_loader"
    by code_simp+
  note c = ascending_ctor [OF l r s]
  have t: "arg_inv tri_graph" "uint (0 :: node_id) < n_nodes tri_graph"
    "uint (2 :: node_id) < n_nodes tri_graph"
    "(2 :: node_id) \<in> set (out tri_graph ! unat (0 :: node_id))"
    by code_simp+
  have e: "out_attr (filled_graph (loaded_graph sorted_loader)) = [[11, 12], [22], [30]]"
    "in_attr (filled_graph (loaded_graph sorted_loader)) = [[30], [11], [12, 22]]"
    "edge_entry tri_graph 0 2 = Some 12" "in_entry tri_graph 2 0 = Some 12"
    "GetInEdge (fst (snd (SetEdgeAttr tri_graph 0 2 77 True))) 2 0 = Inr (0, 77)"
    by code_simp+
  note a1 = aliasing_invariant
    [of sorted_loader "filled_graph (loaded_graph sorted_loader)" 0 0 0 False]
  note a2 = aliasing_invariant [of sorted_loader tri_graph 0 2 77 True]
  have 1: "arg_inv (filled_graph (loaded_graph sorted_loader))"
    by (rule a1 [THEN conjunct1, THEN mp, OF conjI [OF r c]])
  have p: "arg_inv tri_graph \<and> uint (0 :: node_id) < n_nodes tri_graph
      \<and> uint (2 :: node_id) < n_nodes tri_graph"
    by (intro conjI t(1) t(2) t(3))
  have q: "arg_inv tri_graph \<and> uint (0 :: node_id) < n_nodes tri_graph
      \<and> uint (2 :: node_id) < n_nodes tri_graph
      \<and> (2 :: node_id) \<in> set (out tri_graph ! unat (0 :: node_id))"
    by (intro conjI t)
  note k1 = a2 [THEN conjunct2, THEN conjunct1, THEN mp, OF p]
  note k2 = a2 [THEN conjunct2, THEN conjunct2, THEN mp, OF q]
  have 2: "arg_inv (fst (snd (SetEdgeAttr tri_graph 0 2 77 True)))"
    by (rule k1 [THEN conjunct2])
  have 3: "fst (SetEdgeAttr tri_graph 0 2 77 True) = None"
    by (rule k2 [THEN conjunct1])
  have 4: "HasEdge (fst (snd (SetEdgeAttr tri_graph 0 2 77 True))) 0 2 True = Inr (True, Some 77)"
    by (rule k2 [THEN conjunct2, THEN conjunct1])
  have 5: "in_entry (fst (snd (SetEdgeAttr tri_graph 0 2 77 True))) 2 0 = Some 77"
    by (rule k2 [THEN conjunct2, THEN conjunct2, THEN conjunct2, THEN conjunct1])
  show ?thesis
    by (intro conjI) (rule r c 1 e t(1) t(4) 2 3 4 5)+
qed

text \<open>
  Without the bound on the in-degree the invariant fails. \<open>wrap_loader\<close> reports
  65539 edges into node 2; \<^verbatim>\<open>in_count[2]\<close> wraps around to 3, the number of nodes for
  which \<open>HasEdge\<close> finds node 2, so \<^verbatim>\<open>assert(l==k)\<close> passes and the construction
  completes. Node 0 keeps the out-array 2, 1 with the handle 12 for node 2, but the
  binary search misses it: the in-array of node 2 has no entry for node 0, \<open>HasEdge\<close>
  answers false and \<open>SetEdgeAttr\<close> answers \<open>UnknownEdge\<close>.
\<close>

theorem aliasing_wrap_counterexample:
  "in_total wrap_loader 2 = 65539
   \<and> \<not> in_range wrap_loader
   \<and> (case ARGraph_impl_ctor wrap_loader of
         Inl e \<Rightarrow> False
       | Inr g \<Rightarrow>
           n_nodes g = 4
           \<and> out g ! 0 = [2, 1] \<and> out_attr g ! 0 = [12, 11]
           \<and> in_count g ! 2 = 3 \<and> inn g ! 2 = [1, 2, 3]
           \<and> edge_entry g 0 2 = Some 12 \<and> in_entry g 2 0 = None
           \<and> HasEdge g 0 2 True = Inr (False, None)
           \<and> SetEdgeAttr g 0 2 77 True = (Some UnknownEdge, g, []))"
  unfolding wrap_ctor sum.case
  by (intro conjI wrap_in_total wrap_not_in_range wrap_graph wrap_lookup)
end
